theory Spec2Isabelle
  imports Main
begin

section \<open>JavaScript values and option records\<close>

text \<open>
  The generators of \<^verbatim>\<open>src/model/regexPatterns.js\<close> receive one argument, \<^verbatim>\<open>options\<close>,
  read one property of it and test that property for truthiness. The values that
  can reach them are modelled by \<open>jsval\<close>. An object is the association list of
  its own properties, the first binding of a key being the one that counts, so that
  \<open>(k, v) # kvs\<close> is the record \<open>kvs\<close> with the key \<open>k\<close> set to \<open>v\<close>; what it
  inherits is what every plain object does, and no key that the generators read is
  among that. A number is kept as an integer, with \<open>JNaN\<close> apart: truthiness asks
  no more of it.
\<close>

datatype jsval =
    JUndefined
  | JNull
  | JBool bool
  | JNum int
  | JNaN
  | JStr string
  | JObj "(string \<times> jsval) list"

datatype error = TypeError

text \<open>The truthiness test of \<^verbatim>\<open>if (options.x)\<close>.\<close>

fun ToBoolean :: "jsval \<Rightarrow> bool" where
  "ToBoolean JUndefined = False"
| "ToBoolean JNull = False"
| "ToBoolean (JBool b) = b"
| "ToBoolean (JNum n) = (n \<noteq> 0)"
| "ToBoolean JNaN = False"
| "ToBoolean (JStr s) = (s \<noteq> [])"
| "ToBoolean (JObj kvs) = True"

text \<open>
  The property read \<^verbatim>\<open>options.k\<close>, for the keys the generators read (none of them
  is a property of a primitive's prototype): it throws on \<^verbatim>\<open>undefined\<close> and
  \<^verbatim>\<open>null\<close>, and gives \<^verbatim>\<open>undefined\<close> for a key the object does not have.
\<close>

fun get_prop :: "jsval \<Rightarrow> string \<Rightarrow> error + jsval" where
  "get_prop JUndefined k = Inl TypeError"
| "get_prop JNull k = Inl TypeError"
| "get_prop (JObj kvs) k = Inr (case map_of kvs k of None \<Rightarrow> JUndefined | Some v \<Rightarrow> v)"
| "get_prop v k = Inr JUndefined"

text \<open>
  A parameter declared \<^verbatim>\<open>(options = {})\<close> takes its default when the argument is
  missing or \<^verbatim>\<open>undefined\<close>; a call with no argument is the call with \<open>JUndefined\<close>.
\<close>

definition default_param :: "jsval \<Rightarrow> jsval \<Rightarrow> jsval" where
  "default_param arg d = (if arg = JUndefined then d else arg)"


section \<open>The pattern generators\<close>

record generated =
  pattern :: string
  flags :: string

text \<open>
  The backslash cannot be written inside a string literal of the logic; it is the
  character \<open>bslash\<close>. The JavaScript literal \<^verbatim>\<open>'\\d{3}'\<close> is the four-character
  string made of a backslash, \<^verbatim>\<open>d\<close>, and \<^verbatim>\<open>{3}\<close>; in the template literal of the
  IPv4 generator the escape \<^verbatim>\<open>\/\<close> is the single character \<^verbatim>\<open>/\<close>.
\<close>

abbreviation bslash :: char where
  "bslash \<equiv> CHR 0x5C"

definition generateEmailRegex :: "jsval \<Rightarrow> error + generated" where
  "generateEmailRegex arg =
     (let options = default_param arg (JObj []) in
      let pattern = ''[a-zA-Z0-9._%+-]+@[a-zA-Z0-9.-]+'' @ bslash # ''.[a-zA-Z]{2,63}'' in
      let flags = ''i'' in
      case get_prop options ''allowSubdomains'' of
        Inl e \<Rightarrow> Inl e
      | Inr v \<Rightarrow>
          let pattern =
            (if ToBoolean v
             then ''[a-zA-Z0-9._%+-]+@[a-zA-Z0-9.-]+'' @ bslash # ''.[a-zA-Z]{2,63}(''
                    @ bslash # ''.[a-zA-Z]{2})?''
             else pattern) in
          let pattern = ''^'' @ pattern @ ''$'' in
          Inr \<lparr>pattern = pattern, flags = flags\<rparr>)"

definition generateCPFRegex :: "jsval \<Rightarrow> error + generated" where
  "generateCPFRegex arg =
     (let options = default_param arg (JObj []) in
      let flags = '''' in
      case get_prop options ''allowOptionalSymbols'' of
        Inl e \<Rightarrow> Inl e
      | Inr v \<Rightarrow>
          let pattern =
            (if ToBoolean v
             then bslash # ''d{3}'' @ bslash # ''.?'' @ bslash # ''d{3}'' @ bslash # ''.?''
                    @ bslash # ''d{3}-?'' @ bslash # ''d{2}''
             else bslash # ''d{3}'' @ bslash # ''.'' @ bslash # ''d{3}'' @ bslash # ''.''
                    @ bslash # ''d{3}-'' @ bslash # ''d{2}'') in
          let pattern = ''^'' @ pattern @ ''$'' in
          Inr \<lparr>pattern = pattern, flags = flags\<rparr>)"

definition generateCEPRegex :: "jsval \<Rightarrow> error + generated" where
  "generateCEPRegex arg =
     (let options = default_param arg (JObj []) in
      let flags = '''' in
      case get_prop options ''allowOptionalSymbols'' of
        Inl e \<Rightarrow> Inl e
      | Inr v \<Rightarrow>
          let pattern =
            (if ToBoolean v
             then bslash # ''d{5}-?'' @ bslash # ''d{3}''
             else bslash # ''d{5}-'' @ bslash # ''d{3}'') in
          let pattern = ''^'' @ pattern @ ''$'' in
          Inr \<lparr>pattern = pattern, flags = flags\<rparr>)"

text \<open>The UUID generator declares no parameter: whatever it is called with is dropped.\<close>

definition generateUUIDRegex :: "jsval \<Rightarrow> error + generated" where
  "generateUUIDRegex arg =
     (let flags = ''i'' in
      let uuidPattern =
        ''[0-9a-f]{8}-[0-9a-f]{4}-4[0-9a-f]{3}-[89ab][0-9a-f]{3}-[0-9a-f]{12}'' in
      let pattern = uuidPattern in
      let pattern = ''^'' @ pattern @ ''$'' in
      Inr \<lparr>pattern = pattern, flags = flags\<rparr>)"

definition generateIPv4Regex :: "jsval \<Rightarrow> error + generated" where
  "generateIPv4Regex arg =
     (let options = default_param arg (JObj []) in
      let octet = ''(?:25[0-5]|2[0-4]'' @ bslash # ''d|1'' @ bslash # ''d{2}|[1-9]?''
                    @ bslash # ''d)'' in
      let pattern = octet @ bslash # ''.'' @ octet @ bslash # ''.'' @ octet
                      @ bslash # ''.'' @ octet in
      case get_prop options ''allowCIDR'' of
        Inl e \<Rightarrow> Inl e
      | Inr v \<Rightarrow>
          let pattern =
            (if ToBoolean v
             then pattern @ ''(?:/(?:[0-9]|[12][0-9]|3[0-2]))?''
             else pattern) in
          let pattern = ''^'' @ pattern @ ''$'' in
          let flags = '''' in
          Inr \<lparr>pattern = pattern, flags = flags\<rparr>)"


section \<open>The registry\<close>

text \<open>
  \<^verbatim>\<open>RegexCategories\<close>, in the order of the source, an entry being a key and its
  descriptor. The fields \<^verbatim>\<open>id\<close>, \<^verbatim>\<open>type\<close> and \<^verbatim>\<open>default\<close> of a criterion are
  \<open>cid\<close>, \<open>ctype\<close> and \<open>cdefault\<close>. In the display texts the double quote is the
  character \<open>dquote\<close>, and the accented letters are their code units.
\<close>

record criterion =
  cid :: string
  label :: string
  ctype :: string
  cdefault :: jsval

record category =
  name :: string
  generator :: "jsval \<Rightarrow> error + generated"
  criteria :: "criterion list"

abbreviation dquote :: char where
  "dquote \<equiv> CHR 0x22"

definition RegexCategories :: "(string \<times> category) list" where
  "RegexCategories =
     [(''email'',
        \<lparr>name = ''E-mail'',
         generator = generateEmailRegex,
         criteria =
           [\<lparr>cid = ''allowSubdomains'',
             label = ''Permitir subdom'' @ CHR 0xED # ''nios (.ex: '' @ dquote # ''.com''
                       @ dquote # '' , '' @ dquote # ''.com.br'' @ dquote # '')'',
             ctype = ''checkbox'', cdefault = JBool False\<rparr>]\<rparr>),
      (''cpf'',
        \<lparr>name = ''CPF (Formato)'',
         generator = generateCPFRegex,
         criteria =
           [\<lparr>cid = ''allowOptionalSymbols'',
             label = ''Permitir s'' @ CHR 0xED # ''mbolos opcionais'',
             ctype = ''checkbox'', cdefault = JBool True\<rparr>]\<rparr>),
      (''cep'',
        \<lparr>name = ''CEP'',
         generator = generateCEPRegex,
         criteria =
           [\<lparr>cid = ''allowOptionalSymbols'',
             label = ''Permitir s'' @ CHR 0xED # ''mbolos opcionais'',
             ctype = ''checkbox'', cdefault = JBool True\<rparr>]\<rparr>),
      (''uuid'',
        \<lparr>name = ''UUID v4'',
         generator = generateUUIDRegex,
         criteria = []\<rparr>),
      (''ipv4'',
        \<lparr>name = ''IPv4 (Endere'' @ CHR 0xE7 # ''o)'',
         generator = generateIPv4Regex,
         criteria =
           [\<lparr>cid = ''allowCIDR'',
             label = ''Permitir sufixo CIDR (ex: /24)'',
             ctype = ''checkbox'', cdefault = JBool False\<rparr>]\<rparr>)]"

text \<open>The options record that holds every declared criterion at the value \<open>f\<close> gives it.\<close>

definition filled :: "(criterion \<Rightarrow> jsval) \<Rightarrow> category \<Rightarrow> jsval" where
  "filled f c = JObj (map (\<lambda>cr. (cid cr, f cr)) (criteria c))"


section \<open>The regular expressions of the run-time\<close>

text \<open>
  The patterns are handed to the regular-expression engine of the JavaScript run-time
  (\<^verbatim>\<open>new RegExp(pattern, flags).test(s)\<close>), which is not code of the repository. Its
  behaviour on the fragment of the pattern syntax that the generators use is modelled
  here: anchors, literal characters, \<^verbatim>\<open>\d\<close>, escaped punctuation, positive
  character classes with ranges, groups, alternation and the quantifiers
  \<^verbatim>\<open>?\<close>, \<^verbatim>\<open>+\<close>, \<^verbatim>\<open>*\<close>, \<^verbatim>\<open>{n}\<close>, \<^verbatim>\<open>{n,}\<close>, \<^verbatim>\<open>{n,m}\<close>. Anything
  else makes the parser answer \<open>None\<close>, so that nothing is claimed about it. The
  fragment has no back-reference and no look-around, so whether \<^verbatim>\<open>test\<close> succeeds does
  not depend on the order in which the engine tries the alternatives.

  A string is a list of 8-bit characters here, and a list of 16-bit code units in
  JavaScript. The patterns name ASCII characters only, and no code unit above 127
  matches one of them, with or without the flag \<^verbatim>\<open>i\<close>: the code units from 256 on
  behave as the characters from 128 to 255 do here.
\<close>

datatype citem = Single char | Range char char | Digit

datatype rexp =
    Bol
  | Eol
  | Eps
  | Cls "citem list"
  | Seq rexp rexp
  | Alt rexp rexp
  | Rep rexp nat "nat option"

datatype token = TAtom rexp | TOpen | TClose | TBar | TQuant nat "nat option"

subsection \<open>Reading a pattern\<close>

definition code :: "char \<Rightarrow> nat" where
  "code c = of_char c"

definition is_digit :: "char \<Rightarrow> bool" where
  "is_digit c = (code CHR ''0'' \<le> code c \<and> code c \<le> code CHR ''9'')"

definition is_alnum :: "char \<Rightarrow> bool" where
  "is_alnum c =
     (is_digit c \<or> (code CHR ''a'' \<le> code c \<and> code c \<le> code CHR ''z'')
        \<or> (code CHR ''A'' \<le> code c \<and> code c \<le> code CHR ''Z''))"

text \<open>Printable ASCII that is neither a letter nor a digit: what an identity escape may name.\<close>

definition is_punct :: "char \<Rightarrow> bool" where
  "is_punct c = (32 < code c \<and> code c < 127 \<and> \<not> is_alnum c)"

text \<open>The characters that stand for themselves outside a class.\<close>

definition is_plain :: "char \<Rightarrow> bool" where
  "is_plain c = (32 \<le> code c \<and> code c < 127 \<and> c \<notin> set ''^$.*+?()[]{}|'' \<and> c \<noteq> bslash)"

definition number :: "string \<Rightarrow> nat" where
  "number ds = foldl (\<lambda>n d. 10 * n + (code d - code CHR ''0'')) 0 ds"

text \<open>
  One member of a class, read from the front of what follows the opening bracket. A
  hyphen between two members makes a range; a hyphen before the closing bracket is
  itself. A range whose ends are out of order is a syntax error of the engine; a range
  that ends or starts at an escape is not in the fragment.
\<close>

definition is_ascii :: "char \<Rightarrow> bool" where
  "is_ascii c = (32 \<le> code c \<and> code c < 127)"

definition starts_range :: "string \<Rightarrow> bool" where
  "starts_range s = (case s of m # hi # _ \<Rightarrow> m = CHR ''-'' \<and> hi \<noteq> CHR '']'' | _ \<Rightarrow> False)"

definition class_item :: "string \<Rightarrow> (citem \<times> string) option" where
  "class_item s =
     (case s of
        [] \<Rightarrow> None
      | c # cs \<Rightarrow>
          if c = bslash then
            (case cs of
               [] \<Rightarrow> None
             | d # ds \<Rightarrow>
                 if starts_range ds then None
                 else if d = CHR ''d'' then Some (Digit, ds)
                 else if is_punct d then Some (Single d, ds)
                 else None)
          else if c = CHR ''['' \<or> \<not> is_ascii c then None
          else if starts_range cs then
            (let hi = hd (tl cs) in
             if hi = bslash \<or> hi = CHR ''['' \<or> \<not> is_ascii hi \<or> code hi < code c then None
             else Some (Range c hi, tl (tl cs)))
          else Some (Single c, cs))"

lemma class_item_shorter: "class_item s = Some (it, rest) \<Longrightarrow> length rest < length s"
  by (cases s) (auto simp: class_item_def Let_def starts_range_def split: if_splits list.splits)

text \<open>The members of a class, up to the closing bracket.\<close>

function scan_class :: "string \<Rightarrow> (citem list \<times> string) option" where
  "scan_class s =
     (case s of
        [] \<Rightarrow> None
      | c # cs \<Rightarrow>
          if c = CHR '']'' then Some ([], cs)
          else (case class_item s of
                  None \<Rightarrow> None
                | Some (it, rest) \<Rightarrow>
                    (case scan_class rest of
                       None \<Rightarrow> None
                     | Some (items, rest') \<Rightarrow> Some (it # items, rest'))))"
  by pat_completeness auto
termination
  by (relation "measure length") (auto dest: class_item_shorter)

lemma scan_class_shorter: "scan_class s = Some (items, rest) \<Longrightarrow> length rest < length s"
proof (induction s arbitrary: items rest rule: scan_class.induct)
  case (1 s)
  show ?case
  proof (cases s)
    case Nil
    with "1.prems" show ?thesis by simp
  next
    case (Cons c cs)
    show ?thesis
    proof (cases "c = CHR '']''")
      case True
      with Cons "1.prems" show ?thesis by simp
    next
      case False
      with Cons "1.prems" obtain it r items' where
        ci: "class_item s = Some (it, r)" and sc: "scan_class r = Some (items', rest)"
        by (auto split: option.splits)
      from "1.IH"[OF Cons False ci refl sc] class_item_shorter[OF ci]
      show ?thesis by simp
    qed
  qed
qed

declare scan_class.simps [simp del]

text \<open>The bounds of a braced quantifier, read after the opening brace.\<close>

definition quant_tail :: "nat \<Rightarrow> string \<Rightarrow> ((nat \<times> nat option) \<times> string) option" where
  "quant_tail lo r1 =
     (let es = takeWhile is_digit r1 in
      case dropWhile is_digit r1 of
        [] \<Rightarrow> None
      | e # r3 \<Rightarrow>
          if e \<noteq> CHR ''}'' then None
          else if es = [] then Some ((lo, None), r3)
          else if number es < lo then None
          else Some ((lo, Some (number es)), r3))"

definition scan_quant :: "string \<Rightarrow> ((nat \<times> nat option) \<times> string) option" where
  "scan_quant s =
     (let ds = takeWhile is_digit s in
      if ds = [] then None
      else (case dropWhile is_digit s of
              [] \<Rightarrow> None
            | c # r1 \<Rightarrow>
                if c = CHR ''}'' then Some ((number ds, Some (number ds)), r1)
                else if c = CHR '','' then quant_tail (number ds) r1
                else None))"

lemma quant_tail_shorter: "quant_tail lo s = Some (q, rest) \<Longrightarrow> length rest < length s"
proof -
  assume a: "quant_tail lo s = Some (q, rest)"
  then obtain e where "dropWhile is_digit s = e # rest"
    by (auto simp: quant_tail_def Let_def split: list.splits if_splits)
  then have "length rest < length (dropWhile is_digit s)" by simp
  also have "\<dots> \<le> length s" by (rule length_dropWhile_le)
  finally show ?thesis .
qed

lemma scan_quant_shorter: "scan_quant s = Some (q, rest) \<Longrightarrow> length rest < length s"
proof -
  assume a: "scan_quant s = Some (q, rest)"
  then obtain c r1 where d: "dropWhile is_digit s = c # r1"
    and r: "rest = r1 \<or> quant_tail (number (takeWhile is_digit s)) r1 = Some (q, rest)"
    by (auto simp: scan_quant_def Let_def split: list.splits if_splits)
  from r have "length rest \<le> length r1"
    by (auto dest: quant_tail_shorter)
  also from d have "length r1 < length (dropWhile is_digit s)" by simp
  also have "\<dots> \<le> length s" by (rule length_dropWhile_le)
  finally show ?thesis .
qed


text \<open>
  The next token of a pattern whose first character is \<open>c\<close>. A group opens with
  \<^verbatim>\<open>(\<close> or \<^verbatim>\<open>(?:\<close> (capturing or not: \<^verbatim>\<open>test\<close> does not tell them apart).
\<close>

definition next_token :: "char \<Rightarrow> string \<Rightarrow> (token \<times> string) option" where
  "next_token c cs =
     (if c = CHR ''^'' then Some (TAtom Bol, cs)
      else if c = CHR ''$'' then Some (TAtom Eol, cs)
      else if c = CHR ''('' then
        (if cs \<noteq> [] \<and> hd cs = CHR ''?'' then
           (if tl cs \<noteq> [] \<and> hd (tl cs) = CHR '':'' then Some (TOpen, tl (tl cs)) else None)
         else Some (TOpen, cs))
      else if c = CHR '')'' then Some (TClose, cs)
      else if c = CHR ''|'' then Some (TBar, cs)
      else if c = CHR ''?'' then Some (TQuant 0 (Some 1), cs)
      else if c = CHR ''+'' then Some (TQuant 1 None, cs)
      else if c = CHR ''*'' then Some (TQuant 0 None, cs)
      else if c = CHR ''{'' then
        (case scan_quant cs of
           None \<Rightarrow> None
         | Some ((lo, hi), rest) \<Rightarrow> Some (TQuant lo hi, rest))
      else if c = CHR ''['' then
        (if cs \<noteq> [] \<and> hd cs = CHR ''^'' then None
         else (case scan_class cs of
                 None \<Rightarrow> None
               | Some (items, rest) \<Rightarrow> Some (TAtom (Cls items), rest)))
      else if c = bslash then
        (case cs of
           [] \<Rightarrow> None
         | d # ds \<Rightarrow>
             if d = CHR ''d'' then Some (TAtom (Cls [Digit]), ds)
             else if is_punct d then Some (TAtom (Cls [Single d]), ds)
             else None)
      else if is_plain c then Some (TAtom (Cls [Single c]), cs)
      else None)"

lemma next_token_shorter: "next_token c cs = Some (t, rest) \<Longrightarrow> length rest \<le> length cs"
  unfolding next_token_def
  by (cases cs; cases "tl cs")
     (auto split: if_splits option.splits list.splits
           dest!: scan_quant_shorter scan_class_shorter)

function tokens :: "string \<Rightarrow> token list option" where
  "tokens s =
     (case s of
        [] \<Rightarrow> Some []
      | c # cs \<Rightarrow>
          (case next_token c cs of
             None \<Rightarrow> None
           | Some (t, rest) \<Rightarrow>
               (case tokens rest of
                  None \<Rightarrow> None
                | Some ts \<Rightarrow> Some (t # ts))))"
  by pat_completeness auto
termination
  by (relation "measure length") (auto dest: next_token_shorter)

declare tokens.simps [simp del]

text \<open>
  The tokens are folded into an expression with a stack of open groups. A frame holds
  the finished alternatives of its group and the factors of the alternative being read,
  both latest first. A quantifier needs an atom or a group before it that is neither an
  anchor nor already quantified.
\<close>

fun seq_of :: "rexp list \<Rightarrow> rexp" where
  "seq_of [] = Eps"
| "seq_of [r] = r"
| "seq_of (r # rs) = Seq r (seq_of rs)"

fun alt_of :: "rexp list \<Rightarrow> rexp" where
  "alt_of [] = Eps"
| "alt_of [r] = r"
| "alt_of (r # rs) = Alt r (alt_of rs)"

type_synonym frame = "rexp list \<times> rexp list"

definition close_frame :: "frame \<Rightarrow> rexp" where
  "close_frame f = alt_of (rev (seq_of (rev (snd f)) # fst f))"

fun parse_tokens :: "token list \<Rightarrow> frame \<Rightarrow> frame list \<Rightarrow> rexp option" where
  "parse_tokens [] f st = (if st = [] then Some (close_frame f) else None)"
| "parse_tokens (TQuant lo hi # TQuant lo' hi' # ts) f st = None"
| "parse_tokens (TAtom a # ts) (alts, cur) st = parse_tokens ts (alts, a # cur) st"
| "parse_tokens (TBar # ts) (alts, cur) st = parse_tokens ts (seq_of (rev cur) # alts, []) st"
| "parse_tokens (TOpen # ts) f st = parse_tokens ts ([], []) (f # st)"
| "parse_tokens (TClose # ts) f [] = None"
| "parse_tokens (TClose # ts) f ((alts, cur) # st) =
     parse_tokens ts (alts, close_frame f # cur) st"
| "parse_tokens (TQuant lo hi # ts) (alts, []) st = None"
| "parse_tokens (TQuant lo hi # ts) (alts, a # cur) st =
     (if a = Bol \<or> a = Eol then None else parse_tokens ts (alts, Rep a lo hi # cur) st)"

definition parse_re :: "string \<Rightarrow> rexp option" where
  "parse_re p = (case tokens p of None \<Rightarrow> None | Some ts \<Rightarrow> parse_tokens ts ([], []) [])"

subsection \<open>Matching\<close>

text \<open>
  Without the flag \<^verbatim>\<open>i\<close> a character matches a member of a class when it is that
  character, lies in that range, or is a decimal digit for \<^verbatim>\<open>\d\<close>. With the flag,
  the engine compares the upper-case forms of the two characters, and never lets a
  character outside ASCII take the form of one inside. The members the parser lets
  through are ASCII, so a character matches a member under the flag exactly when it,
  its ASCII upper-case form or its ASCII lower-case form matches without the flag.
\<close>

definition to_upper :: "char \<Rightarrow> char" where
  "to_upper c =
     (if code CHR ''a'' \<le> code c \<and> code c \<le> code CHR ''z'' then char_of (code c - 32) else c)"

definition to_lower :: "char \<Rightarrow> char" where
  "to_lower c =
     (if code CHR ''A'' \<le> code c \<and> code c \<le> code CHR ''Z'' then char_of (code c + 32) else c)"

fun item_has :: "citem \<Rightarrow> char \<Rightarrow> bool" where
  "item_has (Single a) c = (c = a)"
| "item_has (Range lo hi) c = (code lo \<le> code c \<and> code c \<le> code hi)"
| "item_has Digit c = is_digit c"

definition class_has :: "bool \<Rightarrow> citem list \<Rightarrow> char \<Rightarrow> bool" where
  "class_has ci items c =
     (if ci
      then list_ex
             (\<lambda>it. item_has it c \<or> item_has it (to_upper c) \<or> item_has it (to_lower c)) items
      else list_ex (\<lambda>it. item_has it c) items)"

text \<open>
  Matching a string \<open>s\<close> is followed on positions: \<open>run ci s r S\<close> is the set of
  positions where a match of \<open>r\<close> that starts at a position of \<open>S\<close> can end. The
  anchors consume nothing and hold at the start and at the end of the string only (the
  generators never set the flag \<^verbatim>\<open>m\<close>). A repetition runs its body \<open>lo\<close> times and
  then up to \<open>hi - lo\<close> times more; with no upper bound, up to \<open>length s\<close> times
  more, since a further round that consumes nothing reaches no new position: more
  rounds reach nothing more (lemma \<open>rounds_suffice\<close>).
\<close>

primrec times :: "('a \<Rightarrow> 'a) \<Rightarrow> nat \<Rightarrow> 'a \<Rightarrow> 'a" where
  "times f 0 S = S"
| "times f (Suc n) S = times f n (f S)"

primrec upto :: "(nat set \<Rightarrow> nat set) \<Rightarrow> nat \<Rightarrow> nat set \<Rightarrow> nat set" where
  "upto f 0 S = S"
| "upto f (Suc n) S = S \<union> upto f n (f S)"

primrec run :: "bool \<Rightarrow> string \<Rightarrow> rexp \<Rightarrow> nat set \<Rightarrow> nat set" where
  "run ci s Bol S = Set.filter (\<lambda>i. i = 0) S"
| "run ci s Eol S = Set.filter (\<lambda>i. i = length s) S"
| "run ci s Eps S = S"
| "run ci s (Cls items) S = Suc ` Set.filter (\<lambda>i. i < length s \<and> class_has ci items (s ! i)) S"
| "run ci s (Seq a b) S = run ci s b (run ci s a S)"
| "run ci s (Alt a b) S = run ci s a S \<union> run ci s b S"
| "run ci s (Rep r lo hi) S =
     upto (run ci s r) (case hi of None \<Rightarrow> length s | Some h \<Rightarrow> h - lo)
       (times (run ci s r) lo S)"

text \<open>
  \<^verbatim>\<open>new RegExp(p, fl).test(s)\<close>: the pattern is compiled, and a match is looked for
  from every start position. The generators return the flags \<^verbatim>\<open>''\<close> and \<^verbatim>\<open>'i'\<close>
  only; the outcome is \<open>None\<close> for other flags and for a pattern outside the fragment.
\<close>

definition re_test :: "string \<Rightarrow> string \<Rightarrow> string \<Rightarrow> bool option" where
  "re_test p fl s =
     (if fl = [] \<or> fl = ''i'' then
        (case parse_re p of
           None \<Rightarrow> None
         | Some r \<Rightarrow> Some (run (CHR ''i'' \<in> set fl) s r {0..length s} \<noteq> {}))
      else None)"

definition test_generated :: "error + generated \<Rightarrow> string \<Rightarrow> bool option" where
  "test_generated g s = (case g of Inl e \<Rightarrow> None | Inr p \<Rightarrow> re_test (pattern p) (flags p) s)"


section \<open>Notions for the proofs\<close>

text \<open>
  What \<^verbatim>\<open>options.k\<close> reads from a record; the expression a generator's pattern compiles
  to, and whether its flags fold case.
\<close>

definition field :: "(string \<times> jsval) list \<Rightarrow> string \<Rightarrow> jsval" where
  "field kvs k = (case map_of kvs k of None \<Rightarrow> JUndefined | Some v \<Rightarrow> v)"

definition compiled :: "error + generated \<Rightarrow> rexp option" where
  "compiled g =
     (case g of
        Inl e \<Rightarrow> None
      | Inr p \<Rightarrow> if flags p = [] \<or> flags p = ''i'' then parse_re (pattern p) else None)"

definition folds_case :: "error + generated \<Rightarrow> bool" where
  "folds_case g = (case g of Inl e \<Rightarrow> False | Inr p \<Rightarrow> CHR ''i'' \<in> set (flags p))"

text \<open>
  Every pattern of the generators compiles to a start anchor, a sequence of factors and
  an end anchor.
\<close>

definition anchored :: "rexp list \<Rightarrow> rexp" where
  "anchored core = Seq Bol (seq_of (core @ [Eol]))"

text \<open>
  A function on position sets is additive when it works position by position, and
  forward when it never moves back nor leaves the string.
\<close>

definition additive :: "(nat set \<Rightarrow> nat set) \<Rightarrow> bool" where
  "additive f = (\<forall>S j. (j \<in> f S) = (\<exists>i\<in>S. j \<in> f {i}))"

definition forward :: "string \<Rightarrow> (nat set \<Rightarrow> nat set) \<Rightarrow> bool" where
  "forward s f = (\<forall>i j. j \<in> f {i} \<longrightarrow> i \<le> j \<and> (i \<le> length s \<longrightarrow> j \<le> length s))"

text \<open>
  \<open>relaxes a b\<close>: the expression \<open>b\<close> is \<open>a\<close> with some factors made optional or
  with optional factors added.
\<close>

inductive relaxes :: "rexp \<Rightarrow> rexp \<Rightarrow> bool" where
  same: "relaxes r r"
| inside: "relaxes a a' \<Longrightarrow> relaxes b b' \<Longrightarrow> relaxes (Seq a b) (Seq a' b')"
| optional: "0 < h \<Longrightarrow> relaxes r (Rep r 0 (Some h))"
| skipped: "relaxes b (Seq (Rep g 0 hi) b)"

text \<open>
  An expression without anchors and without unbounded repetition matches finitely many
  shapes, a shape being the list of the classes that the characters of a match belong to,
  one after the other. \<open>fits ci w s i\<close>: the shape \<open>w\<close> matches \<open>s\<close> from position \<open>i\<close>.
\<close>

definition fits :: "bool \<Rightarrow> citem list list \<Rightarrow> string \<Rightarrow> nat \<Rightarrow> bool" where
  "fits ci w s i =
     (i + length w \<le> length s \<and> list_all2 (class_has ci) w (take (length w) (drop i s)))"

primrec words_power :: "'a list list \<Rightarrow> nat \<Rightarrow> 'a list list" where
  "words_power ws 0 = [[]]"
| "words_power ws (Suc n) = [x @ y. x \<leftarrow> ws, y \<leftarrow> words_power ws n]"

primrec shapes :: "rexp \<Rightarrow> citem list list list" where
  "shapes Bol = []"
| "shapes Eol = []"
| "shapes Eps = [[]]"
| "shapes (Cls items) = [[items]]"
| "shapes (Seq a b) = [x @ y. x \<leftarrow> shapes a, y \<leftarrow> shapes b]"
| "shapes (Alt a b) = shapes a @ shapes b"
| "shapes (Rep r lo hi) =
     (case hi of
        None \<Rightarrow> []
      | Some h \<Rightarrow> concat (map (\<lambda>d. words_power (shapes r) (lo + d)) [0..<Suc (h - lo)]))"

primrec bounded :: "rexp \<Rightarrow> bool" where
  "bounded Bol = False"
| "bounded Eol = False"
| "bounded Eps = True"
| "bounded (Cls items) = True"
| "bounded (Seq a b) = (bounded a \<and> bounded b)"
| "bounded (Alt a b) = (bounded a \<and> bounded b)"
| "bounded (Rep r lo hi) = (bounded r \<and> hi \<noteq> None)"

text \<open>
  A function on position sets that matches exactly the shapes of a list.
\<close>

definition follows :: "bool \<Rightarrow> string \<Rightarrow> (nat set \<Rightarrow> nat set) \<Rightarrow> citem list list list \<Rightarrow> bool" where
  "follows ci s f ws =
     (\<forall>i j. i \<le> length s \<longrightarrow> (j \<in> f {i}) = (\<exists>w\<in>set ws. fits ci w s i \<and> j = i + length w))"

text \<open>
  A slot of a shape is definite for a property of characters when every character it
  admits has the property, or none has. \<open>digit_slot\<close> tells it for being a digit,
  \<open>any_slot\<close> for the property that always holds. A shape is good for \<open>n\<close> when its
  slots are definite, \<open>n\<close> of them have the property, and so do the first and the last.
\<close>

fun digit_slot :: "citem list \<Rightarrow> bool option" where
  "digit_slot [Digit] = Some True"
| "digit_slot [Single c] = (if is_digit c then None else Some False)"
| "digit_slot items = None"

definition any_slot :: "citem list \<Rightarrow> bool option" where
  "any_slot items = Some True"

definition good_shape :: "(citem list \<Rightarrow> bool option) \<Rightarrow> nat \<Rightarrow> citem list list \<Rightarrow> bool" where
  "good_shape slot n w =
     (w \<noteq> [] \<and> list_all (\<lambda>it. slot it \<noteq> None) w
      \<and> length (filter (\<lambda>it. slot it = Some True) w) = n
      \<and> slot (hd w) = Some True \<and> slot (last w) = Some True)"

definition slot_for :: "bool \<Rightarrow> (citem list \<Rightarrow> bool option) \<Rightarrow> (char \<Rightarrow> bool) \<Rightarrow> bool" where
  "slot_for ci slot D = (\<forall>it c b. class_has ci it c \<and> slot it = Some b \<longrightarrow> D c = b)"

text \<open>
  The decimal numeral of a number, without leading zeros, and the dotted form of four
  numbers: what the octets and the prefix of an address are compared with.
\<close>

definition digit_char :: "nat \<Rightarrow> char" where
  "digit_char d = char_of (code CHR ''0'' + d)"

fun dec :: "nat \<Rightarrow> string" where
  "dec n = (if n < 10 then [digit_char n] else dec (n div 10) @ [digit_char (n mod 10)])"

declare dec.simps [simp del]

definition dotted :: "nat \<Rightarrow> nat \<Rightarrow> nat \<Rightarrow> nat \<Rightarrow> string" where
  "dotted a b c d = dec a @ ''.'' @ dec b @ ''.'' @ dec c @ ''.'' @ dec d"

text \<open>
  The characters that a class admits, case not folded; the strings of a shape, one
  character of each of its classes in turn; the strings that an expression without
  anchors and unbounded repetition matches as a whole.
\<close>

fun item_chars :: "citem \<Rightarrow> string" where
  "item_chars (Single c) = [c]"
| "item_chars (Range lo hi) = map char_of [code lo..<Suc (code hi)]"
| "item_chars Digit = map char_of [code CHR ''0''..<Suc (code CHR ''9'')]"

primrec expand :: "citem list list \<Rightarrow> string list" where
  "expand [] = [[]]"
| "expand (items # w) = [c # t. c \<leftarrow> concat (map item_chars items), t \<leftarrow> expand w]"

definition matched :: "bool \<Rightarrow> rexp \<Rightarrow> string set" where
  "matched ci r = {t. \<exists>w\<in>set (shapes r). list_all2 (class_has ci) w t}"

text \<open>
  The expressions that the patterns of the five generators compile to.
\<close>

abbreviation lit :: "char \<Rightarrow> rexp" where
  "lit c \<equiv> Cls [Single c]"

abbreviation exactly :: "nat \<Rightarrow> rexp \<Rightarrow> rexp" where
  "exactly n r \<equiv> Rep r n (Some n)"

abbreviation opt :: "rexp \<Rightarrow> rexp" where
  "opt r \<equiv> Rep r 0 (Some 1)"

abbreviation hex :: rexp where
  "hex \<equiv> Cls [Range CHR ''0'' CHR ''9'', Range CHR ''a'' CHR ''f'']"

abbreviation letters :: "citem list" where
  "letters \<equiv> [Range CHR ''a'' CHR ''z'', Range CHR ''A'' CHR ''Z'']"

abbreviation digit :: rexp where
  "digit \<equiv> Cls [Digit]"

abbreviation host_chars :: "citem list" where
  "host_chars \<equiv> letters @ [Range CHR ''0'' CHR ''9'', Single CHR ''.'', Single CHR ''-'']"

definition uuid_core :: "rexp list" where
  "uuid_core =
     [exactly 8 hex, lit CHR ''-'', exactly 4 hex, lit CHR ''-'', lit CHR ''4'', exactly 3 hex,
      lit CHR ''-'', Cls [Single CHR ''8'', Single CHR ''9'', Single CHR ''a'', Single CHR ''b''],
      exactly 3 hex, lit CHR ''-'', exactly 12 hex]"

definition email_core :: "bool \<Rightarrow> rexp list" where
  "email_core sub =
     [Rep (Cls (letters @ [Range CHR ''0'' CHR ''9'', Single CHR ''.'', Single CHR ''_'',
             Single CHR ''%'', Single CHR ''+'', Single CHR ''-''])) 1 None,
      lit CHR ''@'',
      Rep (Cls (letters @ [Range CHR ''0'' CHR ''9'', Single CHR ''.'', Single CHR ''-''])) 1 None,
      lit CHR ''.'',
      Rep (Cls letters) 2 (Some 63)]
     @ (if sub then [opt (Seq (lit CHR ''.'') (exactly 2 (Cls letters)))] else [])"

definition cpf_core :: "bool \<Rightarrow> rexp list" where
  "cpf_core loose =
     (if loose
      then [exactly 3 digit, opt (lit CHR ''.''), exactly 3 digit, opt (lit CHR ''.''),
            exactly 3 digit, opt (lit CHR ''-''), exactly 2 digit]
      else [exactly 3 digit, lit CHR ''.'', exactly 3 digit, lit CHR ''.'',
            exactly 3 digit, lit CHR ''-'', exactly 2 digit])"

definition cep_core :: "bool \<Rightarrow> rexp list" where
  "cep_core loose =
     (if loose then [exactly 5 digit, opt (lit CHR ''-''), exactly 3 digit]
      else [exactly 5 digit, lit CHR ''-'', exactly 3 digit])"

definition octet_re :: rexp where
  "octet_re =
     Alt (Seq (lit CHR ''2'') (Seq (lit CHR ''5'') (Cls [Range CHR ''0'' CHR ''5''])))
       (Alt (Seq (lit CHR ''2'') (Seq (Cls [Range CHR ''0'' CHR ''4'']) digit))
          (Alt (Seq (lit CHR ''1'') (exactly 2 digit))
             (Seq (opt (Cls [Range CHR ''1'' CHR ''9''])) digit)))"

definition cidr_re :: rexp where
  "cidr_re =
     Seq (lit CHR ''/'')
       (Alt (Cls [Range CHR ''0'' CHR ''9''])
          (Alt (Seq (Cls [Single CHR ''1'', Single CHR ''2'']) (Cls [Range CHR ''0'' CHR ''9'']))
             (Seq (lit CHR ''3'') (Cls [Range CHR ''0'' CHR ''2'']))))"

definition ipv4_core :: "bool \<Rightarrow> rexp list" where
  "ipv4_core cidr =
     [octet_re, lit CHR ''.'', octet_re, lit CHR ''.'', octet_re, lit CHR ''.'', octet_re]
     @ (if cidr then [opt cidr_re] else [])"


section \<open>Properties of the matcher\<close>

subsection \<open>Position by position, and forward\<close>

lemma additiveD: "additive f \<Longrightarrow> (j \<in> f S) = (\<exists>i\<in>S. j \<in> f {i})"
  unfolding additive_def by blast

lemma additive_empty: "additive f \<Longrightarrow> f {} = {}"
  using additiveD [of f _ "{}"] by auto

lemma additive_mono: "additive f \<Longrightarrow> S \<subseteq> T \<Longrightarrow> f S \<subseteq> f T"
  using additiveD [of f _ S] additiveD [of f _ T] by blast

lemma additive_id: "additive (\<lambda>S. S)"
  unfolding additive_def by simp

lemma additive_comp:
  assumes f: "additive f" and g: "additive g"
  shows "additive (\<lambda>S. g (f S))"
  unfolding additive_def
proof (intro allI iffI)
  fix S j
  assume "j \<in> g (f S)"
  with additiveD [OF g, of j "f S"] obtain k where k: "k \<in> f S" "j \<in> g {k}"
    by blast
  from k(1) additiveD [OF f, of k S] obtain i where i: "i \<in> S" "k \<in> f {i}"
    by blast
  from i(2) k(2) additiveD [OF g, of j "f {i}"] have "j \<in> g (f {i})"
    by blast
  with i(1) show "\<exists>i\<in>S. j \<in> g (f {i})" ..
next
  fix S j
  assume "\<exists>i\<in>S. j \<in> g (f {i})"
  then obtain i where i: "i \<in> S" "j \<in> g (f {i})" ..
  from i(2) additiveD [OF g, of j "f {i}"] obtain k where k: "k \<in> f {i}" "j \<in> g {k}"
    by blast
  from i(1) k(1) additiveD [OF f, of k S] have "k \<in> f S"
    by blast
  with k(2) additiveD [OF g, of j "f S"] show "j \<in> g (f S)"
    by blast
qed

lemma additive_Un:
  assumes f: "additive f" and g: "additive g"
  shows "additive (\<lambda>S. f S \<union> g S)"
  unfolding additive_def
proof (intro allI)
  fix S j
  from additiveD [OF f, of j S] additiveD [OF g, of j S]
  show "(j \<in> f S \<union> g S) = (\<exists>i\<in>S. j \<in> f {i} \<union> g {i})"
    by blast
qed

lemma additive_times: "additive f \<Longrightarrow> additive (times f n)"
proof (induction n)
  case 0
  then show ?case by (simp add: additive_def)
next
  case (Suc n)
  from additive_comp [OF Suc.prems Suc.IH [OF Suc.prems]]
  show ?case by simp
qed

lemma additive_upto: "additive f \<Longrightarrow> additive (upto f n)"
proof (induction n)
  case 0
  then show ?case by (simp add: additive_def)
next
  case (Suc n)
  from additive_Un [OF additive_id additive_comp [OF Suc.prems Suc.IH [OF Suc.prems]]]
  show ?case by simp
qed

lemma additive_run: "additive (run ci s r)"
proof (induction r)
  case Bol
  show ?case by (auto simp: additive_def)
next
  case Eol
  show ?case by (auto simp: additive_def)
next
  case Eps
  show ?case by (simp add: additive_def)
next
  case (Cls items)
  show ?case by (auto simp: additive_def)
next
  case (Seq a b)
  from additive_comp [OF Seq.IH] show ?case by simp
next
  case (Alt a b)
  from additive_Un [OF Alt.IH] show ?case by simp
next
  case (Rep r lo hi)
  from additive_comp [OF additive_times [OF Rep.IH] additive_upto [OF Rep.IH]]
  show ?case by simp
qed

lemmas run_elem = additiveD [OF additive_run]

lemmas run_empty = additive_empty [OF additive_run]

lemmas run_mono = additive_mono [OF additive_run]


lemma forwardD: "forward s f \<Longrightarrow> j \<in> f {i} \<Longrightarrow> i \<le> j \<and> (i \<le> length s \<longrightarrow> j \<le> length s)"
  unfolding forward_def by blast

lemma forward_comp:
  assumes f: "forward s f" and g: "forward s g" and ag: "additive g"
  shows "forward s (\<lambda>S. g (f S))"
  unfolding forward_def
proof (intro allI impI)
  fix i j
  assume "j \<in> g (f {i})"
  with additiveD [OF ag, of j "f {i}"] obtain k where k: "k \<in> f {i}" "j \<in> g {k}"
    by blast
  from forwardD [OF f k(1)] forwardD [OF g k(2)]
  show "i \<le> j \<and> (i \<le> length s \<longrightarrow> j \<le> length s)"
    by auto
qed

lemma forward_Un:
  assumes f: "forward s f" and g: "forward s g"
  shows "forward s (\<lambda>S. f S \<union> g S)"
  unfolding forward_def
  using forwardD [OF f] forwardD [OF g] by blast

lemma forward_id: "forward s (\<lambda>S. S)"
  unfolding forward_def by simp

lemma forward_times:
  assumes f: "forward s f" and af: "additive f"
  shows "forward s (times f n)"
proof (induction n)
  case 0
  show ?case by (simp add: forward_def)
next
  case (Suc n)
  from forward_comp [OF f Suc.IH additive_times [OF af]]
  show ?case by simp
qed

lemma forward_upto:
  assumes f: "forward s f" and af: "additive f"
  shows "forward s (upto f n)"
proof (induction n)
  case 0
  show ?case by (simp add: forward_def)
next
  case (Suc n)
  from forward_Un [OF forward_id forward_comp [OF f Suc.IH additive_upto [OF af]]]
  show ?case by simp
qed

lemma forward_run: "forward s (run ci s r)"
proof (induction r)
  case (Seq a b)
  from forward_comp [OF Seq.IH additive_run] show ?case by simp
next
  case (Alt a b)
  from forward_Un [OF Alt.IH] show ?case by simp
next
  case (Rep r lo hi)
  from forward_comp [OF forward_times [OF Rep.IH additive_run]
      forward_upto [OF Rep.IH additive_run] additive_upto [OF additive_run]]
  show ?case by simp
qed (auto simp: forward_def)

subsection \<open>The rounds of an unbounded repetition\<close>

lemma times_step:
  assumes af: "additive f"
  shows "(j \<in> times f (Suc m) {i}) = (\<exists>k\<in>f {i}. j \<in> times f m {k})"
  using additiveD [OF additive_times [OF af], of j m "f {i}"] by simp

text \<open>
  Rounds that consume nothing can be left out.
\<close>

lemma times_shortcut:
  assumes af: "additive f" and fw: "forward s f"
  shows "j \<in> times f m {i} \<Longrightarrow> \<exists>m'. m' \<le> m \<and> m' \<le> j - i \<and> j \<in> times f m' {i}"
proof (induction m arbitrary: i)
  case 0
  then show ?case by auto
next
  case (Suc m)
  from Suc.prems times_step [OF af, of j m i] obtain k where
    k: "k \<in> f {i}" "j \<in> times f m {k}"
    by blast
  from Suc.IH [OF k(2)] obtain m' where
    m': "m' \<le> m" "m' \<le> j - k" "j \<in> times f m' {k}"
    by blast
  from forwardD [OF fw k(1)] have ik: "i \<le> k" by simp
  from forwardD [OF forward_times [OF fw af] m'(3)] have kj: "k \<le> j" by simp
  show ?case
  proof (cases "k = i")
    case True
    with m' show ?thesis by (intro exI [of _ m']) auto
  next
    case False
    with ik have "i < k" by simp
    with kj m'(2) have "Suc m' \<le> j - i" by arith
    moreover from k(1) m'(3) times_step [OF af, of j m' i] have "j \<in> times f (Suc m') {i}"
      by blast
    ultimately show ?thesis using m'(1) by (intro exI [of _ "Suc m'"]) auto
  qed
qed

lemma times_commute: "times f m (f S) = f (times f m S)"
  by (induction m arbitrary: S) simp_all

lemma times_add: "times f a (times f b S) = times f (b + a) S"
  by (induction b arbitrary: S) simp_all

lemma upto_as_times: "(j \<in> upto f n S) = (\<exists>m\<le>n. j \<in> times f m S)"
proof (induction n arbitrary: S)
  case 0
  show ?case by simp
next
  case (Suc n)
  have "(j \<in> upto f (Suc n) S) = (j \<in> S \<or> (\<exists>m\<le>n. j \<in> times f (Suc m) S))"
    by (simp add: Suc.IH)
  also have "\<dots> = (\<exists>m\<le>Suc n. j \<in> times f m S)"
  proof
    assume "j \<in> S \<or> (\<exists>m\<le>n. j \<in> times f (Suc m) S)"
    then show "\<exists>m\<le>Suc n. j \<in> times f m S"
    proof
      assume "j \<in> S"
      then have "j \<in> times f 0 S" by simp
      then show ?thesis by blast
    next
      assume "\<exists>m\<le>n. j \<in> times f (Suc m) S"
      then obtain m where "m \<le> n" "j \<in> times f (Suc m) S" by blast
      then have "Suc m \<le> Suc n \<and> j \<in> times f (Suc m) S" by simp
      then show ?thesis by blast
    qed
  next
    assume "\<exists>m\<le>Suc n. j \<in> times f m S"
    then obtain m where m: "m \<le> Suc n" "j \<in> times f m S" by blast
    show "j \<in> S \<or> (\<exists>m\<le>n. j \<in> times f (Suc m) S)"
    proof (cases m)
      case 0
      with m show ?thesis by simp
    next
      case (Suc m')
      with m have "m' \<le> n \<and> j \<in> times f (Suc m') S" by simp
      then show ?thesis by blast
    qed
  qed
  finally show ?case .
qed

text \<open>
  The rounds allowed to an unbounded repetition are enough: from start positions inside
  the string, no number of rounds reaches a position that \<open>length s\<close> rounds do not.
\<close>

lemma rounds_suffice:
  assumes S: "S \<subseteq> {0..length s}"
  shows "upto (run ci s r) n S \<subseteq> upto (run ci s r) (length s) S"
proof
  fix j
  let ?f = "run ci s r"
  assume "j \<in> upto ?f n S"
  then obtain m where m: "j \<in> times ?f m S"
    by (auto simp: upto_as_times)
  with additiveD [OF additive_times [OF additive_run], of j ci s r m S]
  obtain i where i: "i \<in> S" "j \<in> times ?f m {i}"
    by blast
  from times_shortcut [OF additive_run forward_run i(2)] obtain m' where
    m': "m' \<le> j - i" "j \<in> times ?f m' {i}"
    by blast
  from i(1) S have "i \<le> length s" by auto
  with forwardD [OF forward_times [OF forward_run additive_run] m'(2)]
  have "j \<le> length s" by simp
  with m'(1) have "m' \<le> length s" by simp
  moreover from i(1) m'(2)
    additiveD [OF additive_times [OF additive_run], of j ci s r m' S]
  have "j \<in> times ?f m' S" by blast
  ultimately show "j \<in> upto ?f (length s) S"
    by (auto simp: upto_as_times)
qed

lemma upto_grows: "S \<subseteq> upto f n S"
  by (cases n) auto

subsection \<open>Relaxed expressions match more\<close>

lemma relaxes_run: "relaxes a b \<Longrightarrow> S \<subseteq> T \<Longrightarrow> run ci s a S \<subseteq> run ci s b T"
proof (induction a b arbitrary: S T rule: relaxes.induct)
  case (same r)
  then show ?case by (rule run_mono)
next
  case (inside a a' b b')
  then show ?case by simp
next
  case (optional h r)
  then obtain n where h: "h = Suc n" by (cases h) auto
  have "run ci s r S \<subseteq> run ci s r T"
    using optional.prems by (rule run_mono)
  also have "\<dots> \<subseteq> upto (run ci s r) n (run ci s r T)"
    by (rule upto_grows)
  finally show ?case by (auto simp: h)
next
  case (skipped b g hi)
  have "T \<subseteq> upto (run ci s g) (case hi of None \<Rightarrow> length s | Some h \<Rightarrow> h - 0) T"
    by (rule upto_grows)
  with skipped have "S \<subseteq> upto (run ci s g) (case hi of None \<Rightarrow> length s | Some h \<Rightarrow> h - 0) T"
    by (rule subset_trans)
  from run_mono [OF this] show ?case by simp
qed

subsection \<open>Anchors\<close>

lemma run_seq_of_snoc:
  "run ci s (seq_of (xs @ [x])) S = run ci s x (run ci s (seq_of xs) S)"
  by (induction xs arbitrary: S rule: seq_of.induct) simp_all

lemma anchored_span:
  assumes "j \<in> run ci s (Seq Bol (seq_of (xs @ [Eol]))) {i}"
  shows "i = 0 \<and> j = length s"
proof -
  have "i = 0"
  proof (rule ccontr)
    assume "i \<noteq> 0"
    then have "Set.filter (\<lambda>i. i = 0) {i} = {}" by auto
    moreover from assms
    have "j \<in> run ci s (seq_of (xs @ [Eol])) (Set.filter (\<lambda>i. i = 0) {i})"
      by (simp only: run.simps)
    ultimately show False by (simp only: run_empty empty_iff)
  qed
  moreover from assms have "j = length s"
    by (simp add: run_seq_of_snoc)
  ultimately show ?thesis ..
qed

lemma anchored_whole:
  "(run ci s (Seq Bol (seq_of (xs @ [Eol]))) {0..length s} \<noteq> {})
     = (length s \<in> run ci s (seq_of xs) {0})"
proof -
  have "Set.filter (\<lambda>i. i = 0) {0..length s} = {0}" by auto
  then show ?thesis by (auto simp: run_seq_of_snoc)
qed

subsection \<open>Shapes\<close>

lemma fits_Nil: "fits ci [] s i = (i \<le> length s)"
  by (simp add: fits_def)

lemma fits_single: "fits ci [items] s i = (i < length s \<and> class_has ci items (s ! i))"
proof (cases "i < length s")
  case True
  then have "take (Suc 0) (drop i s) = [s ! i]"
    by (simp add: take_Suc_conv_app_nth hd_drop_conv_nth take_Suc)
  with True show ?thesis by (simp add: fits_def)
next
  case False
  then show ?thesis by (simp add: fits_def)
qed

lemma fits_append:
  "fits ci (x @ y) s i = (fits ci x s i \<and> fits ci y s (i + length x))"
proof (cases "i + length x + length y \<le> length s")
  case True
  have t: "take (length x + length y) (drop i s)
      = take (length x) (drop i s) @ take (length y) (drop (i + length x) s)"
    by (simp add: take_add add.commute)
  have l: "length (take (length x) (drop i s)) = length x"
    using True by simp
  show ?thesis
    using True by (auto simp: fits_def t list_all2_append l)
next
  case False
  then show ?thesis by (auto simp: fits_def)
qed

lemma followsD:
  "follows ci s f ws \<Longrightarrow> i \<le> length s \<Longrightarrow>
     (j \<in> f {i}) = (\<exists>w\<in>set ws. fits ci w s i \<and> j = i + length w)"
  unfolding follows_def by blast

lemma follows_comp:
  assumes f: "follows ci s f xs" and g: "follows ci s g ys" and ag: "additive g"
  shows "follows ci s (\<lambda>S. g (f S)) [x @ y. x \<leftarrow> xs, y \<leftarrow> ys]"
  unfolding follows_def
proof (intro allI impI iffI)
  fix i j
  assume i: "i \<le> length s" and "j \<in> g (f {i})"
  with additiveD [OF ag, of j "f {i}"] obtain k where k: "k \<in> f {i}" "j \<in> g {k}"
    by blast
  from k(1) followsD [OF f i, of k] obtain x where
    x: "x \<in> set xs" "fits ci x s i" "k = i + length x"
    by blast
  from x(2,3) have "k \<le> length s"
    by (simp add: fits_def)
  from k(2) followsD [OF g this, of j] obtain y where
    y: "y \<in> set ys" "fits ci y s k" "j = k + length y"
    by blast
  from x y have "x @ y \<in> set [x @ y. x \<leftarrow> xs, y \<leftarrow> ys]"
    and "fits ci (x @ y) s i" and "j = i + length (x @ y)"
    by (auto simp: fits_append)
  then show "\<exists>w\<in>set [x @ y. x \<leftarrow> xs, y \<leftarrow> ys]. fits ci w s i \<and> j = i + length w"
    by blast
next
  fix i j
  assume i: "i \<le> length s"
    and "\<exists>w\<in>set [x @ y. x \<leftarrow> xs, y \<leftarrow> ys]. fits ci w s i \<and> j = i + length w"
  then obtain x y where x: "x \<in> set xs" and y: "y \<in> set ys"
    and w: "fits ci (x @ y) s i" "j = i + length (x @ y)"
    by auto
  from w(1) have fx: "fits ci x s i" and fy: "fits ci y s (i + length x)"
    by (simp_all add: fits_append)
  from fx have le: "i + length x \<le> length s"
    by (simp add: fits_def)
  from x fx followsD [OF f i, of "i + length x"] have k: "i + length x \<in> f {i}"
    by blast
  from y fy w(2) followsD [OF g le, of j] have "j \<in> g {i + length x}"
    by auto
  with k additiveD [OF ag, of j "f {i}"] show "j \<in> g (f {i})"
    by blast
qed

lemma follows_Un:
  assumes f: "follows ci s f xs" and g: "follows ci s g ys"
  shows "follows ci s (\<lambda>S. f S \<union> g S) (xs @ ys)"
  unfolding follows_def
proof (intro allI impI)
  fix i j
  assume i: "i \<le> length s"
  from followsD [OF f i, of j] followsD [OF g i, of j]
  show "(j \<in> f {i} \<union> g {i}) = (\<exists>w\<in>set (xs @ ys). fits ci w s i \<and> j = i + length w)"
    by auto
qed

lemma follows_id: "follows ci s (\<lambda>S. S) [[]]"
  unfolding follows_def by (auto simp: fits_Nil)

lemma follows_times:
  assumes f: "follows ci s f ws" and af: "additive f"
  shows "follows ci s (times f n) (words_power ws n)"
proof (induction n)
  case 0
  from follows_id show ?case by simp
next
  case (Suc n)
  from follows_comp [OF f Suc.IH additive_times [OF af]]
  show ?case by simp
qed

lemma follows_upto:
  assumes f: "follows ci s f ws" and af: "additive f"
  shows "follows ci s (\<lambda>S. upto f n (times f lo S))
           (concat (map (\<lambda>d. words_power ws (lo + d)) [0..<Suc n]))"
proof (induction n arbitrary: lo)
  case 0
  from follows_times [OF f af, of lo] show ?case by simp
next
  case (Suc n)
  have e: "(\<lambda>S. upto f (Suc n) (times f lo S))
      = (\<lambda>S. times f lo S \<union> upto f n (times f (Suc lo) S))"
  proof
    fix S
    have "times f lo (f S) = f (times f lo S)" for S
      by (induction lo arbitrary: S) simp_all
    then show "upto f (Suc n) (times f lo S) = times f lo S \<union> upto f n (times f (Suc lo) S)"
      by simp
  qed
  have m: "map (\<lambda>d. words_power ws (lo + d)) [0..<Suc (Suc n)]
      = words_power ws lo # map (\<lambda>d. words_power ws (Suc lo + d)) [0..<Suc n]"
    by (simp only: upt_conv_Cons [of 0] map_Suc_upt [symmetric] list.map map_map o_def)
       simp
  from follows_Un [OF follows_times [OF f af, of lo] Suc.IH [of "Suc lo"]]
  show ?case unfolding e m by simp
qed

lemma follows_run: "bounded r \<Longrightarrow> follows ci s (run ci s r) (shapes r)"
proof (induction r)
  case (Cls items)
  show ?case
    unfolding follows_def by (auto simp: fits_single)
next
  case (Seq a b)
  then have "follows ci s (run ci s a) (shapes a)" and "follows ci s (run ci s b) (shapes b)"
    by simp_all
  from follows_comp [OF this additive_run] show ?case by simp
next
  case (Alt a b)
  then have "follows ci s (run ci s a) (shapes a)" and "follows ci s (run ci s b) (shapes b)"
    by simp_all
  from follows_Un [OF this] show ?case by simp
next
  case (Rep r lo hi)
  then obtain h where h: "hi = Some h" by auto
  from Rep have "follows ci s (run ci s r) (shapes r)" by simp
  from follows_upto [OF this additive_run, of "h - lo" lo]
  show ?case by (simp add: h)
next
  case Eps
  have "run ci s Eps = (\<lambda>S. S)"
    by (rule ext) simp
  with follows_id [of ci s] show ?case by simp
qed simp_all

lemma anchored_shapes:
  assumes "bounded (seq_of xs)"
  shows "(run ci s (Seq Bol (seq_of (xs @ [Eol]))) {0..length s} \<noteq> {})
     = (\<exists>w\<in>set (shapes (seq_of xs)). list_all2 (class_has ci) w s)"
proof -
  have "(length s \<in> run ci s (seq_of xs) {0})
      = (\<exists>w\<in>set (shapes (seq_of xs)). fits ci w s 0 \<and> length s = 0 + length w)"
    by (rule followsD [OF follows_run [OF assms]]) simp
  also have "\<dots> = (\<exists>w\<in>set (shapes (seq_of xs)). list_all2 (class_has ci) w s)"
  proof -
    have "(fits ci w s 0 \<and> length s = 0 + length w) = list_all2 (class_has ci) w s" for w
    proof
      assume f: "fits ci w s 0 \<and> length s = 0 + length w"
      then have "take (length w) s = s" by simp
      with f show "list_all2 (class_has ci) w s" by (simp add: fits_def)
    next
      assume a: "list_all2 (class_has ci) w s"
      then have "length w = length s" by (rule list_all2_lengthD)
      with a show "fits ci w s 0 \<and> length s = 0 + length w" by (simp add: fits_def)
    qed
    then show ?thesis by simp
  qed
  finally show ?thesis by (simp only: anchored_whole)
qed

lemma slot_for_digit: "slot_for False digit_slot is_digit"
  unfolding slot_for_def
proof (intro allI impI)
  fix it c b
  assume a: "class_has False it c \<and> digit_slot it = Some b"
  then show "is_digit c = b"
    by (cases it rule: digit_slot.cases) (auto simp: class_has_def split: if_splits)
qed

lemma slot_for_any: "slot_for ci any_slot (\<lambda>c. True)"
  by (simp add: slot_for_def any_slot_def)

lemma shape_profile:
  assumes s: "slot_for ci slot D"
  shows "list_all2 (class_has ci) w s \<Longrightarrow> list_all (\<lambda>it. slot it \<noteq> None) w \<Longrightarrow>
     map D s = map (\<lambda>it. slot it = Some True) w"
proof (induction rule: list_all2_induct)
  case Nil
  then show ?case by simp
next
  case (Cons it w c s)
  from Cons.prems obtain b where b: "slot it = Some b" by auto
  with Cons.hyps(1) s have "D c = b" unfolding slot_for_def by blast
  with b Cons show ?case by auto
qed

lemma good_profile:
  assumes sl: "slot_for ci slot D" and m: "list_all2 (class_has ci) w s"
    and g: "good_shape slot n w"
  shows "s \<noteq> [] \<and> length (filter D s) = n \<and> D (hd s) \<and> D (last s)"
proof -
  from g have ne: "w \<noteq> []" by (simp add: good_shape_def)
  with m have sne: "s \<noteq> []" by (auto dest: list_all2_lengthD)
  from g have p: "map D s = map (\<lambda>it. slot it = Some True) w"
    by (intro shape_profile [OF sl m]) (simp add: good_shape_def)
  have "length (filter D s) = length (filter (\<lambda>b. b) (map D s))"
    by (simp add: filter_map o_def)
  also have "\<dots> = length (filter (\<lambda>it. slot it = Some True) w)"
    unfolding p by (simp add: filter_map o_def)
  finally have c: "length (filter D s) = n"
    using g by (simp add: good_shape_def)
  have "D (hd s) = hd (map D s)" using sne by (simp add: hd_map)
  also have "\<dots> = (slot (hd w) = Some True)" unfolding p using ne by (simp add: hd_map)
  finally have h: "D (hd s)" using g by (simp add: good_shape_def)
  have "D (last s) = last (map D s)" using sne by (simp add: last_map)
  also have "\<dots> = (slot (last w) = Some True)" unfolding p using ne by (simp add: last_map)
  finally have l: "D (last s)" using g by (simp add: good_shape_def)
  from sne c h l show ?thesis by simp
qed

lemma no_room:
  assumes "s \<noteq> []" and "length (filter D s) = n" and "length (filter D (u @ s @ v)) = n"
    and h: "D (hd (u @ s @ v))" and l: "D (last (u @ s @ v))"
  shows "u = [] \<and> v = []"
proof -
  from assms(2,3) have fu: "filter D u = []" and fv: "filter D v = []"
    by simp_all
  have "u = []"
  proof (rule ccontr)
    assume "u \<noteq> []"
    with h have "hd u \<in> set (filter D u)" by simp
    with fu show False by simp
  qed
  moreover have "v = []"
  proof (rule ccontr)
    assume "v \<noteq> []"
    with l have "last v \<in> set (filter D v)" by simp
    with fv show False by simp
  qed
  ultimately show ?thesis ..
qed

subsection \<open>Repeated classes\<close>

lemma times_class:
  assumes "i \<le> length s"
  shows "(j \<in> times (run ci s (Cls items)) m {i})
     = (j = i + m \<and> j \<le> length s \<and> (\<forall>t<m. class_has ci items (s ! (i + t))))"
  using assms
proof (induction m arbitrary: i)
  case 0
  then show ?case by auto
next
  case (Suc m)
  show ?case
  proof (cases "i < length s \<and> class_has ci items (s ! i)")
    case True
    then have r: "run ci s (Cls items) {i} = {Suc i}" by auto
    from True have l: "Suc i \<le> length s" by simp
    have "(j \<in> times (run ci s (Cls items)) (Suc m) {i})
        = (j \<in> times (run ci s (Cls items)) m {Suc i})"
      by (simp only: times.simps r)
    also have "\<dots> = (j = Suc i + m \<and> j \<le> length s
        \<and> (\<forall>t<m. class_has ci items (s ! (Suc i + t))))"
      using l by (rule Suc.IH)
    also have "\<dots> = (j = i + Suc m \<and> j \<le> length s
        \<and> (\<forall>t<Suc m. class_has ci items (s ! (i + t))))"
      using True by (auto simp: All_less_Suc2)
    finally show ?thesis .
  next
    case False
    then have r: "run ci s (Cls items) {i} = {}" by auto
    have "times (run ci s (Cls items)) m {} = {}"
      by (rule additive_empty [OF additive_times [OF additive_run]])
    then have "j \<notin> times (run ci s (Cls items)) (Suc m) {i}"
      by (simp only: times.simps r) simp
    moreover from False have "\<not> (j = i + Suc m \<and> j \<le> length s
        \<and> (\<forall>t<Suc m. class_has ci items (s ! (i + t))))"
      by (auto simp: All_less_Suc2)
    ultimately show ?thesis by blast
  qed
qed

lemma rep_class:
  assumes i: "i \<le> length s"
  shows "(j \<in> run ci s (Rep (Cls items) lo hi) {i})
     = (\<exists>m. lo \<le> m \<and> m \<le> lo + (case hi of None \<Rightarrow> length s | Some h \<Rightarrow> h - lo)
          \<and> j = i + m \<and> j \<le> length s \<and> (\<forall>t<m. class_has ci items (s ! (i + t))))"
proof -
  define N where "N = (case hi of None \<Rightarrow> length s | Some h \<Rightarrow> h - lo)"
  let ?f = "run ci s (Cls items)"
  let ?P = "\<lambda>m. j = i + m \<and> j \<le> length s \<and> (\<forall>t<m. class_has ci items (s ! (i + t)))"
  have "(j \<in> run ci s (Rep (Cls items) lo hi) {i}) = (\<exists>e\<le>N. j \<in> times ?f (lo + e) {i})"
    by (simp only: run.simps upto_as_times times_add N_def)
  also have "\<dots> = (\<exists>e\<le>N. ?P (lo + e))"
    by (simp only: times_class [OF i])
  also have "\<dots> = (\<exists>m. lo \<le> m \<and> m \<le> lo + N \<and> ?P m)"
  proof
    assume "\<exists>e\<le>N. ?P (lo + e)"
    then obtain e where "e \<le> N" "?P (lo + e)" by blast
    then have "lo \<le> lo + e \<and> lo + e \<le> lo + N \<and> ?P (lo + e)" by simp
    then show "\<exists>m. lo \<le> m \<and> m \<le> lo + N \<and> ?P m" ..
  next
    assume "\<exists>m. lo \<le> m \<and> m \<le> lo + N \<and> ?P m"
    then obtain m where "lo \<le> m" "m \<le> lo + N" "?P m" by blast
    then have "m - lo \<le> N \<and> ?P (lo + (m - lo))" by simp
    then show "\<exists>e\<le>N. ?P (lo + e)" by blast
  qed
  finally show ?thesis unfolding N_def .
qed

lemma lit_step:
  "(j \<in> run ci s (Cls items) {i}) = (j = Suc i \<and> i < length s \<and> class_has ci items (s ! i))"
  by auto

lemma class_has_mono:
  "set items \<subseteq> set items' \<Longrightarrow> class_has ci items c \<Longrightarrow> class_has ci items' c"
  by (cases ci) (simp_all add: class_has_def list_ex_iff, blast+)

lemma char_of_code: "of_char c = (n::nat) \<Longrightarrow> c = char_of n"
  by auto

lemma only_four: "class_has True [Single CHR ''4''] c \<Longrightarrow> c = CHR ''4''"
  by (auto simp: class_has_def to_upper_def to_lower_def code_def char_of_eq_iff take_bit_eq_mod
      split: if_splits)

lemma variant_digits:
  "class_has True [Single CHR ''8'', Single CHR ''9'', Single CHR ''a'', Single CHR ''b''] c
     \<Longrightarrow> c \<in> set ''89abAB''"
  by (auto simp: class_has_def to_upper_def to_lower_def code_def char_of_eq_iff take_bit_eq_mod
      split: if_splits dest!: char_of_code)

text \<open>
  After a match of the host part, the dot and the letters, a further dot and two letters
  are again a match of them: the host part takes what was matched so far.
\<close>

lemma suffix_absorbed:
  assumes y: "y \<le> length s"
    and k: "k \<in> run ci s (seq_of [Rep (Cls host_chars) 1 None, lit CHR ''.'',
              Rep (Cls letters) 2 (Some 63)]) {y}"
    and n: "n \<in> run ci s (Seq (lit CHR ''.'') (exactly 2 (Cls letters))) {k}"
  shows "n \<in> run ci s (seq_of [Rep (Cls host_chars) 1 None, lit CHR ''.'',
              Rep (Cls letters) 2 (Some 63)]) {y}"
proof -
  let ?B = "Rep (Cls host_chars) 1 None" and ?C = "Rep (Cls letters) 2 (Some 63)"
  let ?dot = "lit CHR ''.''"
  from k have "k \<in> run ci s ?C (run ci s ?dot (run ci s ?B {y}))" by simp
  then obtain d where d: "d \<in> run ci s ?dot (run ci s ?B {y})" and kd: "k \<in> run ci s ?C {d}"
    using run_elem [of k ci s ?C] by blast
  from d obtain b where b: "b \<in> run ci s ?B {y}" and db: "d \<in> run ci s ?dot {b}"
    using run_elem [of d ci s ?dot] by blast
  from b obtain m1 where m1: "1 \<le> m1" "b = y + m1" "b \<le> length s"
    "\<forall>t<m1. class_has ci host_chars (s ! (y + t))"
    unfolding rep_class [OF y] by blast
  from db have d': "d = Suc b" "b < length s" "class_has ci [Single CHR ''.''] (s ! b)"
    unfolding lit_step by simp_all
  from d' have dl: "d \<le> length s" by simp
  from kd obtain m2 where m2: "2 \<le> m2" "k = d + m2" "k \<le> length s"
    "\<forall>t<m2. class_has ci letters (s ! (d + t))"
    unfolding rep_class [OF dl] by blast
  from n have "n \<in> run ci s (exactly 2 (Cls letters)) (run ci s ?dot {k})" by simp
  then obtain e where e: "e \<in> run ci s ?dot {k}" and ne: "n \<in> run ci s (exactly 2 (Cls letters)) {e}"
    using run_elem [of n ci s "exactly 2 (Cls letters)"] by blast
  from e have e': "e = Suc k" "k < length s" "class_has ci [Single CHR ''.''] (s ! k)"
    unfolding lit_step by simp_all
  from e' have el: "e \<le> length s" by simp
  from ne obtain m3 where m3: "2 \<le> m3" "m3 \<le> 2" "n = e + m3" "n \<le> length s"
    "\<forall>t<m3. class_has ci letters (s ! (e + t))"
    unfolding rep_class [OF el] by auto
  have host: "class_has ci host_chars (s ! (y + t))" if "t < k - y" for t
  proof -
    consider "t < m1" | "t = m1" | "m1 < t"
      by arith
    then show ?thesis
    proof cases
      case 1
      with m1(4) show ?thesis by simp
    next
      case 2
      with m1(2) have "y + t = b" by simp
      with d'(3) show ?thesis
        by (auto intro: class_has_mono [rotated])
    next
      case 3
      with that m1(2) d'(1) m2(2) have "t - Suc m1 < m2" and "y + t = d + (t - Suc m1)"
        by simp_all
      with m2(4) have "class_has ci letters (s ! (y + t))" by simp
      then show ?thesis
        by (auto intro: class_has_mono [rotated])
    qed
  qed
  from m1 d' m2 have ky: "k = y + (k - y)" and "1 \<le> k - y" by simp_all
  with host m2(3) have "k \<in> run ci s ?B {y}"
    unfolding rep_class [OF y] by (intro exI [of _ "k - y"]) auto
  moreover from e have "Suc k \<in> run ci s ?dot {k}" by (simp add: e'(1))
  moreover from m3 e' have "n \<in> run ci s ?C {Suc k}"
    unfolding rep_class [OF el [unfolded e'(1)]] by (intro exI [of _ m3]) auto
  ultimately have "n \<in> run ci s ?C (run ci s ?dot (run ci s ?B {y}))"
    using run_elem [of n ci s ?C "run ci s ?dot (run ci s ?B {y})"]
      run_elem [of "Suc k" ci s ?dot "run ci s ?B {y}"]
    by blast
  then show ?thesis by simp
qed


subsection \<open>The strings of a shape\<close>

lemma code_less: "code c < 256"
  by (simp add: code_def)

lemma range_chars:
  "(c \<in> set (map char_of [code lo..<Suc (code hi)])) = (code lo \<le> code c \<and> code c \<le> code hi)"
proof
  assume "c \<in> set (map char_of [code lo..<Suc (code hi)])"
  then obtain n where n: "code lo \<le> n" "n \<le> code hi" "c = char_of n"
    by auto
  from n(2) code_less [of hi] have "n < 256" by simp
  then have "code (char_of n) = n" by (simp add: code_def)
  with n show "code lo \<le> code c \<and> code c \<le> code hi" by simp
next
  assume "code lo \<le> code c \<and> code c \<le> code hi"
  then have "code c \<in> set [code lo..<Suc (code hi)]" by auto
  then have "char_of (code c) \<in> char_of ` set [code lo..<Suc (code hi)]"
    by (rule imageI)
  moreover have "char_of (code c) = c" by (simp add: code_def)
  ultimately show "c \<in> set (map char_of [code lo..<Suc (code hi)])"
    by (simp only: set_map)
qed

lemma item_chars_iff: "(c \<in> set (item_chars it)) = item_has it c"
  by (cases it) (simp_all only: item_chars.simps item_has.simps range_chars is_digit_def, auto)

lemma class_chars: "class_has False items c = (c \<in> set (concat (map item_chars items)))"
  by (auto simp: class_has_def list_ex_iff item_chars_iff)

lemma expand_iff: "list_all2 (class_has False) w t = (t \<in> set (expand w))"
proof (induction w arbitrary: t)
  case Nil
  show ?case by auto
next
  case (Cons items w)
  have "(t \<in> set (expand (items # w)))
      = (\<exists>c u. t = c # u \<and> c \<in> set (concat (map item_chars items)) \<and> u \<in> set (expand w))"
    by auto
  then show ?case
  proof (cases t)
    case Nil
    then show ?thesis by auto
  next
    case (Cons a u)
    assume e: "(t \<in> set (expand (items # w)))
      = (\<exists>c u. t = c # u \<and> c \<in> set (concat (map item_chars items)) \<and> u \<in> set (expand w))"
    show ?thesis
      unfolding e unfolding Cons
      by (simp add: class_chars [of items a] Cons.IH del: set_concat)
  qed
qed

lemma matched_expand: "matched False r = set (concat (map expand (shapes r)))"
  by (auto simp: matched_def expand_iff)

lemma matched_Seq:
  "matched ci (Seq a b) = {x @ y |x y. x \<in> matched ci a \<and> y \<in> matched ci b}"
proof (intro set_eqI iffI)
  fix t
  assume "t \<in> matched ci (Seq a b)"
  then obtain wa wb where w: "wa \<in> set (shapes a)" "wb \<in> set (shapes b)"
    and m: "list_all2 (class_has ci) (wa @ wb) t"
    by (auto simp: matched_def)
  from m obtain x y where "t = x @ y" "list_all2 (class_has ci) wa x"
    "list_all2 (class_has ci) wb y"
    by (auto simp: list_all2_append1)
  with w show "t \<in> {x @ y |x y. x \<in> matched ci a \<and> y \<in> matched ci b}"
    by (auto simp: matched_def)
next
  fix t
  assume "t \<in> {x @ y |x y. x \<in> matched ci a \<and> y \<in> matched ci b}"
  then obtain x y wa wb where t: "t = x @ y"
    and w: "wa \<in> set (shapes a)" "wb \<in> set (shapes b)"
    and m: "list_all2 (class_has ci) wa x" "list_all2 (class_has ci) wb y"
    by (auto simp: matched_def)
  from m have "list_all2 (class_has ci) (wa @ wb) (x @ y)"
    by (rule list_all2_appendI)
  with w t show "t \<in> matched ci (Seq a b)"
    by (auto simp: matched_def)
qed

lemma matched_Seq_UN:
  "matched ci (Seq a b) = (\<Union>x\<in>matched ci a. (\<lambda>y. x @ y) ` matched ci b)"
  by (auto simp: matched_Seq)

lemma matched_lit: "matched False (lit c) = {[c]}"
  by (simp add: matched_expand)

lemma matched_opt: "matched ci (Rep r 0 (Some (Suc 0))) = insert [] (matched ci r)"
  by (auto simp: matched_def)


section \<open>The generated patterns\<close>

lemma get_prop_obj: "get_prop (JObj kvs) k = Inr (field kvs k)"
  by (simp add: field_def)

lemma field_update:
  "map_of kvs' = (map_of kvs)(key \<mapsto> v) \<Longrightarrow> key \<noteq> k \<Longrightarrow> field kvs' k = field kvs k"
  by (simp add: field_def)

lemmas generator_defs =
  generateEmailRegex_def generateCPFRegex_def generateCEPRegex_def generateUUIDRegex_def
  generateIPv4Regex_def

lemma test_generated_compiled:
  "test_generated g s =
     (case compiled g of
        None \<Rightarrow> None
      | Some r \<Rightarrow> Some (run (folds_case g) s r {0..length s} \<noteq> {}))"
  by (cases g)
     (simp_all add: test_generated_def compiled_def folds_case_def re_test_def
        split: option.splits)

lemma test_generated_Inr: "test_generated (Inr p) s = re_test (pattern p) (flags p) s"
  by (simp add: test_generated_def)

lemma generated_anchors:
  assumes "(k, c) \<in> set RegexCategories" and "generator c (JObj kvs) = Inr p"
  shows "hd (pattern p) = CHR ''^'' \<and> last (pattern p) = CHR ''$''"
  using assms
  by (auto simp: RegexCategories_def generator_defs default_param_def Let_def)

lemma email_by_truth:
  "generateEmailRegex (JObj kvs)
     = generateEmailRegex (JObj [(''allowSubdomains'', JBool (ToBoolean (field kvs ''allowSubdomains'')))])"
  by (simp add: generateEmailRegex_def default_param_def get_prop_obj field_def del: get_prop.simps)

lemma cpf_by_truth:
  "generateCPFRegex (JObj kvs)
     = generateCPFRegex (JObj [(''allowOptionalSymbols'', JBool (ToBoolean (field kvs ''allowOptionalSymbols'')))])"
  by (simp add: generateCPFRegex_def default_param_def get_prop_obj field_def del: get_prop.simps)

lemma cep_by_truth:
  "generateCEPRegex (JObj kvs)
     = generateCEPRegex (JObj [(''allowOptionalSymbols'', JBool (ToBoolean (field kvs ''allowOptionalSymbols'')))])"
  by (simp add: generateCEPRegex_def default_param_def get_prop_obj field_def del: get_prop.simps)

lemma ipv4_by_truth:
  "generateIPv4Regex (JObj kvs)
     = generateIPv4Regex (JObj [(''allowCIDR'', JBool (ToBoolean (field kvs ''allowCIDR'')))])"
  by (simp add: generateIPv4Regex_def default_param_def get_prop_obj field_def del: get_prop.simps)

lemma compiled_email:
  "compiled (generateEmailRegex (JObj kvs))
     = Some (anchored (email_core (ToBoolean (field kvs ''allowSubdomains''))))"
proof -
  have "compiled (generateEmailRegex (JObj [(''allowSubdomains'', JBool True)]))
      = Some (anchored (email_core True))"
    by code_simp
  moreover have "compiled (generateEmailRegex (JObj [(''allowSubdomains'', JBool False)]))
      = Some (anchored (email_core False))"
    by code_simp
  ultimately show ?thesis
    by (subst email_by_truth) (cases "ToBoolean (field kvs ''allowSubdomains'')", simp_all)
qed

lemma compiled_cpf:
  "compiled (generateCPFRegex (JObj kvs))
     = Some (anchored (cpf_core (ToBoolean (field kvs ''allowOptionalSymbols''))))"
proof -
  have "compiled (generateCPFRegex (JObj [(''allowOptionalSymbols'', JBool True)]))
      = Some (anchored (cpf_core True))"
    by code_simp
  moreover have "compiled (generateCPFRegex (JObj [(''allowOptionalSymbols'', JBool False)]))
      = Some (anchored (cpf_core False))"
    by code_simp
  ultimately show ?thesis
    by (subst cpf_by_truth) (cases "ToBoolean (field kvs ''allowOptionalSymbols'')", simp_all)
qed

lemma compiled_cep:
  "compiled (generateCEPRegex (JObj kvs))
     = Some (anchored (cep_core (ToBoolean (field kvs ''allowOptionalSymbols''))))"
proof -
  have "compiled (generateCEPRegex (JObj [(''allowOptionalSymbols'', JBool True)]))
      = Some (anchored (cep_core True))"
    by code_simp
  moreover have "compiled (generateCEPRegex (JObj [(''allowOptionalSymbols'', JBool False)]))
      = Some (anchored (cep_core False))"
    by code_simp
  ultimately show ?thesis
    by (subst cep_by_truth) (cases "ToBoolean (field kvs ''allowOptionalSymbols'')", simp_all)
qed

lemma compiled_ipv4:
  "compiled (generateIPv4Regex (JObj kvs))
     = Some (anchored (ipv4_core (ToBoolean (field kvs ''allowCIDR''))))"
proof -
  have "compiled (generateIPv4Regex (JObj [(''allowCIDR'', JBool True)]))
      = Some (anchored (ipv4_core True))"
    by code_simp
  moreover have "compiled (generateIPv4Regex (JObj [(''allowCIDR'', JBool False)]))
      = Some (anchored (ipv4_core False))"
    by code_simp
  ultimately show ?thesis
    by (subst ipv4_by_truth) (cases "ToBoolean (field kvs ''allowCIDR'')", simp_all)
qed

lemma compiled_uuid: "compiled (generateUUIDRegex arg) = Some (anchored uuid_core)"
proof -
  have "compiled (generateUUIDRegex JUndefined) = Some (anchored uuid_core)"
    by code_simp
  then show ?thesis by (simp add: generateUUIDRegex_def)
qed

lemma folds_case_email: "folds_case (generateEmailRegex (JObj kvs)) = True"
  by (simp add: folds_case_def generateEmailRegex_def default_param_def Let_def)

lemma folds_case_cpf: "folds_case (generateCPFRegex (JObj kvs)) = False"
  by (simp add: folds_case_def generateCPFRegex_def default_param_def Let_def)

lemma folds_case_cep: "folds_case (generateCEPRegex (JObj kvs)) = False"
  by (simp add: folds_case_def generateCEPRegex_def default_param_def Let_def)

lemma folds_case_ipv4: "folds_case (generateIPv4Regex (JObj kvs)) = False"
  by (simp add: folds_case_def generateIPv4Regex_def default_param_def Let_def)

lemma folds_case_uuid: "folds_case (generateUUIDRegex arg) = True"
  by (simp add: folds_case_def generateUUIDRegex_def Let_def)

lemma relaxes_generated:
  assumes a: "compiled g = Some a" and b: "compiled g' = Some b"
    and f: "folds_case g' = folds_case g" and r: "relaxes a b"
    and t: "test_generated g s = Some True"
  shows "test_generated g' s = Some True"
  using relaxes_run [OF r subset_refl, of "folds_case g" s "{0..length s}"] t
  by (auto simp: test_generated_compiled a b f)

lemma relaxes_email: "relaxes (anchored (email_core False)) (anchored (email_core True))"
  by (simp add: anchored_def email_core_def) (intro relaxes.inside relaxes.same relaxes.skipped)

lemma relaxes_cpf: "relaxes (anchored (cpf_core False)) (anchored (cpf_core True))"
  by (auto simp: anchored_def cpf_core_def intro!: relaxes.intros)

lemma relaxes_cep: "relaxes (anchored (cep_core False)) (anchored (cep_core True))"
  by (auto simp: anchored_def cep_core_def intro!: relaxes.intros)

lemma relaxes_ipv4: "relaxes (anchored (ipv4_core False)) (anchored (ipv4_core True))"
  by (simp add: anchored_def ipv4_core_def) (intro relaxes.inside relaxes.same relaxes.skipped)

lemma uuid_shapes:
  "list_all (\<lambda>w. length w = 36 \<and> w ! 14 = [Single CHR ''4'']
      \<and> w ! 19 = [Single CHR ''8'', Single CHR ''9'', Single CHR ''a'', Single CHR ''b''])
     (shapes (seq_of uuid_core))"
  by code_simp

lemma uuid_bounded: "bounded (seq_of uuid_core)"
  by code_simp

lemma uuid_good: "list_all (good_shape any_slot 36) (shapes (seq_of uuid_core))"
  by code_simp

lemma cpf_shapes: "bounded (seq_of (cpf_core b)) \<and> list_all (good_shape digit_slot 11) (shapes (seq_of (cpf_core b)))"
proof -
  have "bounded (seq_of (cpf_core True)) \<and> list_all (good_shape digit_slot 11) (shapes (seq_of (cpf_core True)))"
    by code_simp
  moreover have "bounded (seq_of (cpf_core False)) \<and> list_all (good_shape digit_slot 11) (shapes (seq_of (cpf_core False)))"
    by code_simp
  ultimately show ?thesis by (cases b) simp_all
qed

lemma cep_shapes: "bounded (seq_of (cep_core b)) \<and> list_all (good_shape digit_slot 8) (shapes (seq_of (cep_core b)))"
proof -
  have "bounded (seq_of (cep_core True)) \<and> list_all (good_shape digit_slot 8) (shapes (seq_of (cep_core True)))"
    by code_simp
  moreover have "bounded (seq_of (cep_core False)) \<and> list_all (good_shape digit_slot 8) (shapes (seq_of (cep_core False)))"
    by code_simp
  ultimately show ?thesis by (cases b) simp_all
qed

lemma whole_string:
  assumes "compiled (Inr p) = Some (anchored core)"
  shows "\<exists>r. parse_re (pattern p) = Some r
     \<and> (\<forall>s i j. j \<in> run (CHR ''i'' \<in> set (flags p)) s r {i} \<longrightarrow> i = 0 \<and> j = length s)"
  using assms anchored_span
  by (auto simp: compiled_def anchored_def split: if_splits)

lemma anchored_no_extension:
  assumes c: "compiled g = Some (anchored core)" and b: "bounded (seq_of core)"
    and sl: "slot_for (folds_case g) slot D"
    and good: "list_all (good_shape slot n) (shapes (seq_of core))"
    and t: "test_generated g s = Some True" and t': "test_generated g (u @ s @ v) = Some True"
  shows "u = [] \<and> v = []"
proof -
  from t obtain w where w: "w \<in> set (shapes (seq_of core))"
    and m: "list_all2 (class_has (folds_case g)) w s"
    using anchored_shapes [OF b, of "folds_case g" s]
    by (auto simp: test_generated_compiled c anchored_def)
  from t' obtain w' where w': "w' \<in> set (shapes (seq_of core))"
    and m': "list_all2 (class_has (folds_case g)) w' (u @ s @ v)"
    using anchored_shapes [OF b, of "folds_case g" "u @ s @ v"]
    by (auto simp: test_generated_compiled c anchored_def)
  from good w w' have g: "good_shape slot n w" and g': "good_shape slot n w'"
    by (simp_all add: list_all_iff)
  from good_profile [OF sl m g] good_profile [OF sl m' g']
  show ?thesis by (intro no_room [of s D n]) simp_all
qed

lemma email_cores_agree:
  "(n \<in> run ci s (seq_of (email_core True)) {0}) = (n \<in> run ci s (seq_of (email_core False)) {0})"
proof -
  let ?A = "Rep (Cls (letters @ [Range CHR ''0'' CHR ''9'', Single CHR ''.'', Single CHR ''_'',
             Single CHR ''%'', Single CHR ''+'', Single CHR ''-''])) 1 None"
  let ?tail = "seq_of [Rep (Cls host_chars) 1 None, lit CHR ''.'', Rep (Cls letters) 2 (Some 63)]"
  let ?G = "Seq (lit CHR ''.'') (exactly 2 (Cls letters))"
  let ?Y = "run ci s (lit CHR ''@'') (run ci s ?A {0})"
  let ?Z = "run ci s (seq_of (email_core False)) {0}"
  have Z: "?Z = run ci s ?tail ?Y"
    by (simp add: email_core_def)
  have T: "email_core True = email_core False @ [opt ?G]"
    by (simp add: email_core_def)
  have "run ci s (seq_of (email_core True)) {0} = ?Z \<union> run ci s ?G ?Z"
    unfolding T run_seq_of_snoc by simp
  moreover have "run ci s ?G ?Z \<subseteq> ?Z"
  proof
    fix n
    assume "n \<in> run ci s ?G ?Z"
    then obtain k where k: "k \<in> ?Z" and n: "n \<in> run ci s ?G {k}"
      using run_elem [of n ci s ?G ?Z] by blast
    from k obtain y where y: "y \<in> ?Y" and ky: "k \<in> run ci s ?tail {y}"
      unfolding Z using run_elem [of k ci s ?tail ?Y] by blast
    from y have "y \<in> run ci s (Seq ?A (lit CHR ''@'')) {0}" by simp
    from forwardD [OF forward_run this] have "y \<le> length s" by simp
    from suffix_absorbed [OF this ky n] y show "n \<in> ?Z"
      unfolding Z using run_elem [of n ci s ?tail ?Y] by blast
  qed
  ultimately show ?thesis by blast
qed

lemma generated_whole_input:
  "\<forall>(k, c) \<in> set RegexCategories. \<forall>p. generator c (JObj kvs) = Inr p \<longrightarrow>
     hd (pattern p) = CHR ''^'' \<and> last (pattern p) = CHR ''$''
     \<and> (\<exists>r. parse_re (pattern p) = Some r
          \<and> (\<forall>s i j. j \<in> run (CHR ''i'' \<in> set (flags p)) s r {i} \<longrightarrow> i = 0 \<and> j = length s))
     \<and> (k \<in> {''cpf'', ''cep'', ''uuid''} \<longrightarrow>
          (\<forall>s u v. re_test (pattern p) (flags p) s = Some True
             \<and> re_test (pattern p) (flags p) (u @ s @ v) = Some True \<longrightarrow> u = [] \<and> v = []))"
proof (intro ballI, clarify, intro conjI impI allI)
  fix k c p
  assume kc: "(k, c) \<in> set RegexCategories" and g: "generator c (JObj kvs) = Inr p"
  from generated_anchors [OF kc g]
  show "hd (pattern p) = CHR ''^''" and "last (pattern p) = CHR ''$''"
    by simp_all
  from kc g obtain core where core: "compiled (Inr p) = Some (anchored core)"
    using compiled_email [of kvs] compiled_cpf [of kvs] compiled_cep [of kvs]
      compiled_uuid [of "JObj kvs"] compiled_ipv4 [of kvs]
    by (auto simp: RegexCategories_def)
  from whole_string [OF core]
  show "\<exists>r. parse_re (pattern p) = Some r
     \<and> (\<forall>s i j. j \<in> run (CHR ''i'' \<in> set (flags p)) s r {i} \<longrightarrow> i = 0 \<and> j = length s)" .
  fix s u v
  assume k: "k \<in> {''cpf'', ''cep'', ''uuid''}"
    and t: "re_test (pattern p) (flags p) s = Some True
       \<and> re_test (pattern p) (flags p) (u @ s @ v) = Some True"
  from t have t1: "test_generated (Inr p) s = Some True"
    and t2: "test_generated (Inr p) (u @ s @ v) = Some True"
    by (simp_all add: test_generated_Inr)
  from kc k consider
    (cpf) "generateCPFRegex (JObj kvs) = Inr p" | (cep) "generateCEPRegex (JObj kvs) = Inr p"
    | (uuid) "generateUUIDRegex (JObj kvs) = Inr p"
    using g by (auto simp: RegexCategories_def)
  then have "u = [] \<and> v = []"
  proof cases
    case cpf
    have c: "compiled (Inr p)
        = Some (anchored (cpf_core (ToBoolean (field kvs ''allowOptionalSymbols''))))"
      using compiled_cpf [of kvs] by (simp add: cpf)
    have f: "slot_for (folds_case (Inr p)) digit_slot is_digit"
      using folds_case_cpf [of kvs] slot_for_digit by (simp add: cpf)
    from anchored_no_extension
      [OF c cpf_shapes [THEN conjunct1] f cpf_shapes [THEN conjunct2] t1 t2]
    show ?thesis .
  next
    case cep
    have c: "compiled (Inr p)
        = Some (anchored (cep_core (ToBoolean (field kvs ''allowOptionalSymbols''))))"
      using compiled_cep [of kvs] by (simp add: cep)
    have f: "slot_for (folds_case (Inr p)) digit_slot is_digit"
      using folds_case_cep [of kvs] slot_for_digit by (simp add: cep)
    from anchored_no_extension
      [OF c cep_shapes [THEN conjunct1] f cep_shapes [THEN conjunct2] t1 t2]
    show ?thesis .
  next
    case uuid
    have c: "compiled (Inr p) = Some (anchored uuid_core)"
      using compiled_uuid [of "JObj kvs"] by (simp add: uuid)
    from anchored_no_extension [OF c uuid_bounded slot_for_any uuid_good t1 t2]
    show ?thesis .
  qed
  then show "u = []" and "v = []" by simp_all
qed

text \<open>
  The strings of the octet and of the prefix with its slash are the decimal numerals of
  the numbers up to 255 and up to 32.
\<close>

lemma dec_examples: "dec 0 = ''0'' \<and> dec 7 = ''7'' \<and> dec 42 = ''42'' \<and> dec 255 = ''255''"
  by code_simp

lemma octet_list:
  "concat (map expand (shapes octet_re))
     = map dec ([250..<256] @ [200..<250] @ [100..<200] @ [0..<100])"
  by code_simp

lemma cidr_list:
  "concat (map expand (shapes cidr_re)) = map (\<lambda>p. CHR ''/'' # dec p) [0..<33]"
  by code_simp

lemma matched_octet: "matched False octet_re = dec ` {..<256}"
proof -
  have "set ([250..<256] @ [200..<250] @ [100..<200] @ [0..<100]) = {..<256::nat}"
    by (simp only: set_append set_upt) auto
  then show ?thesis
    by (simp only: matched_expand octet_list set_map)
qed

lemma matched_cidr: "matched False cidr_re = (\<lambda>p. CHR ''/'' # dec p) ` {..<33}"
proof -
  have "set [0..<33] = {..<33::nat}" by (simp only: set_upt) auto
  then show ?thesis
    by (simp only: matched_expand cidr_list set_map)
qed

lemma ipv4_bounded: "bounded (seq_of (ipv4_core b))"
  by (cases b) (simp_all add: ipv4_core_def octet_re_def cidr_re_def)

lemma ipv4_plain_matched: "(s \<in> matched False (seq_of (ipv4_core False)))
      = (\<exists>a<256. \<exists>b<256. \<exists>c<256. \<exists>d<256. s = dotted a b c d)"
  by (auto simp: ipv4_core_def matched_Seq_UN matched_lit matched_opt matched_octet matched_cidr
        dotted_def image_UN image_image)

lemma ipv4_cidr_matched: "(s \<in> matched False (seq_of (ipv4_core True)))
      = (\<exists>a<256. \<exists>b<256. \<exists>c<256. \<exists>d<256.
          s = dotted a b c d \<or> (\<exists>p<33. s = dotted a b c d @ ''/'' @ dec p))"
  by (auto simp: ipv4_core_def matched_Seq_UN matched_lit matched_opt matched_octet matched_cidr
        dotted_def image_UN image_image) blast+

lemma ipv4_matched:
  "(s \<in> matched False (seq_of (ipv4_core cidr)))
     = (\<exists>a<256. \<exists>b<256. \<exists>c<256. \<exists>d<256.
          s = dotted a b c d \<or> (cidr \<and> (\<exists>p<33. s = dotted a b c d @ ''/'' @ dec p)))"
  using ipv4_plain_matched [of s] ipv4_cidr_matched [of s] by (cases cidr) simp_all

lemma ipv4_test:
  "test_generated (generateIPv4Regex (JObj kvs)) s
     = Some (s \<in> matched False (seq_of (ipv4_core (ToBoolean (field kvs ''allowCIDR'')))))"
  by (simp add: test_generated_compiled compiled_ipv4 folds_case_ipv4 anchored_def
      anchored_shapes [OF ipv4_bounded] matched_def del: run.simps)

text \<open>
  The criterion of the email generator has no effect on what is matched: with it and
  without it, the generated patterns accept the same strings.
\<close>

theorem subdomain_option_without_effect:
  "test_generated (generateEmailRegex (JObj kvs)) s
     = test_generated (generateEmailRegex (JObj kvs')) s"
proof -
  have "test_generated (generateEmailRegex (JObj kvs)) s
      = Some (length s \<in> run True s (seq_of (email_core False)) {0})" for kvs
    using email_cores_agree [of "length s" True s]
    by (cases "ToBoolean (field kvs ''allowSubdomains'')")
       (simp_all add: test_generated_compiled compiled_email folds_case_email
          anchored_def anchored_whole del: run.simps)
  then show ?thesis by simp
qed


section \<open>The claims\<close>

text \<open>
  C1, as amended. For every category of the registry, the generator called on the empty
  record returns a result, and it is the result for the record that sets every declared
  criterion to false: a generator reads a missing criterion as false and never looks at
  the default that the registry declares. So the result is the one for the declared
  defaults for email, uuid and ipv4, and is not for cpf and cep, whose declared default
  is true.
\<close>

theorem empty_options_means_all_false:
  "\<forall>(k, c) \<in> set RegexCategories.
     (\<exists>p. generator c (JObj []) = Inr p)
     \<and> generator c (JObj []) = generator c (filled (\<lambda>cr. JBool False) c)
     \<and> (generator c (JObj []) = generator c (filled cdefault c)) = (k \<notin> {''cpf'', ''cep''})"
  by (simp add: RegexCategories_def generator_defs default_param_def filled_def Let_def)

theorem empty_options_means_all_false_witness:
  "generateCEPRegex (JObj []) = generateCEPRegex (JObj [(''allowOptionalSymbols'', JBool False)])
   \<and> generateCEPRegex (JObj []) \<noteq> generateCEPRegex (JObj [(''allowOptionalSymbols'', JBool True)])"
proof -
  define c where "c = snd (RegexCategories ! 2)"
  have m: "(''cep'', c) \<in> set RegexCategories" and g: "generator c = generateCEPRegex"
    and f: "filled (\<lambda>cr. JBool False) c = JObj [(''allowOptionalSymbols'', JBool False)]"
      "filled cdefault c = JObj [(''allowOptionalSymbols'', JBool True)]"
    by (simp_all add: c_def RegexCategories_def filled_def)
  from empty_options_means_all_false m
  have "case (''cep'', c) of (k, c) \<Rightarrow>
     (\<exists>p. generator c (JObj []) = Inr p)
     \<and> generator c (JObj []) = generator c (filled (\<lambda>cr. JBool False) c)
     \<and> (generator c (JObj []) = generator c (filled cdefault c)) = (k \<notin> {''cpf'', ''cep''})"
    by (rule bspec)
  from this [unfolded prod.case g f] show ?thesis by auto
qed

text \<open>
  C1 as stated fails for cpf: the empty record gives the strict pattern, the record of
  the declared defaults the one with optional separators.
\<close>

theorem defaults_not_applied:
  "(''cpf'', snd (RegexCategories ! 1)) \<in> set RegexCategories
   \<and> generator (snd (RegexCategories ! 1)) (JObj [])
      \<noteq> generator (snd (RegexCategories ! 1)) (filled cdefault (snd (RegexCategories ! 1)))"
  by (simp add: RegexCategories_def generateCPFRegex_def default_param_def filled_def Let_def)

text \<open>
  C2. With no options, with the empty record and with \<^verbatim>\<open>allowSubdomains\<close> false, the
  pattern of the email generator matches \<^verbatim>\<open>user@example.com\<close>; it also matches
  \<^verbatim>\<open>user@example.com.br\<close>, which the claim says it does not: the class of the host
  part holds the dot, so \<^verbatim>\<open>example.com\<close> is a host and \<^verbatim>\<open>br\<close> the ending.
\<close>

theorem email_default_accepts_second_level:
  "test_generated (generateEmailRegex JUndefined) ''user@example.com'' = Some True
   \<and> test_generated (generateEmailRegex JUndefined) ''user@example.com.br'' = Some True
   \<and> test_generated (generateEmailRegex (JObj [])) ''user@example.com.br'' = Some True
   \<and> test_generated (generateEmailRegex (JObj [(''allowSubdomains'', JBool False)]))
        ''user@example.com.br'' = Some True"
  by code_simp

text \<open>
  C3, as amended. For every category of the registry and every options record, the
  generator returns a pattern that begins with \<^verbatim>\<open>^\<close> and ends with \<^verbatim>\<open>$\<close>, and
  the pattern matches whole input strings only: a match of the compiled pattern in a
  string starts at its first position and ends at its last. For cpf, cep and uuid no
  string made by putting characters before or after a matching string matches. (For
  email and ipv4 such a string can match, when it is itself a whole match.)
\<close>

theorem anchored_matches_whole_input:
  "\<forall>(k, c) \<in> set RegexCategories. \<exists>p. generator c (JObj kvs) = Inr p
     \<and> hd (pattern p) = CHR ''^'' \<and> last (pattern p) = CHR ''$''
     \<and> (\<exists>r. parse_re (pattern p) = Some r
          \<and> (\<forall>s i j. j \<in> run (CHR ''i'' \<in> set (flags p)) s r {i} \<longrightarrow> i = 0 \<and> j = length s))
     \<and> (k \<in> {''cpf'', ''cep'', ''uuid''} \<longrightarrow>
          (\<forall>s u v. re_test (pattern p) (flags p) s = Some True
             \<and> re_test (pattern p) (flags p) (u @ s @ v) = Some True \<longrightarrow> u = [] \<and> v = []))"
proof (intro ballI, clarify)
  fix k c
  assume kc: "(k, c) \<in> set RegexCategories"
  then obtain p where p: "generator c (JObj kvs) = Inr p"
    by (auto simp: RegexCategories_def generator_defs default_param_def Let_def)
  from generated_whole_input [of kvs] kc
  have "case (k, c) of (k, c) \<Rightarrow> \<forall>p. generator c (JObj kvs) = Inr p \<longrightarrow>
     hd (pattern p) = CHR ''^'' \<and> last (pattern p) = CHR ''$''
     \<and> (\<exists>r. parse_re (pattern p) = Some r
          \<and> (\<forall>s i j. j \<in> run (CHR ''i'' \<in> set (flags p)) s r {i} \<longrightarrow> i = 0 \<and> j = length s))
     \<and> (k \<in> {''cpf'', ''cep'', ''uuid''} \<longrightarrow>
          (\<forall>s u v. re_test (pattern p) (flags p) s = Some True
             \<and> re_test (pattern p) (flags p) (u @ s @ v) = Some True \<longrightarrow> u = [] \<and> v = []))"
    by (rule bspec)
  with p show "\<exists>p. generator c (JObj kvs) = Inr p
     \<and> hd (pattern p) = CHR ''^'' \<and> last (pattern p) = CHR ''$''
     \<and> (\<exists>r. parse_re (pattern p) = Some r
          \<and> (\<forall>s i j. j \<in> run (CHR ''i'' \<in> set (flags p)) s r {i} \<longrightarrow> i = 0 \<and> j = length s))
     \<and> (k \<in> {''cpf'', ''cep'', ''uuid''} \<longrightarrow>
          (\<forall>s u v. re_test (pattern p) (flags p) s = Some True
             \<and> re_test (pattern p) (flags p) (u @ s @ v) = Some True \<longrightarrow> u = [] \<and> v = []))"
    by (intro exI [of _ p]) simp
qed

theorem anchored_matches_whole_input_witness:
  "\<exists>p. generateCPFRegex (JObj [(''allowOptionalSymbols'', JBool True)]) = Inr p
      \<and> hd (pattern p) = CHR ''^'' \<and> last (pattern p) = CHR ''$''
      \<and> re_test (pattern p) (flags p) ''12345678909'' = Some True
      \<and> re_test (pattern p) (flags p) ([] @ ''12345678909'' @ []) = Some True
      \<and> (\<exists>r. parse_re (pattern p) = Some r)"
proof -
  let ?kvs = "[(''allowOptionalSymbols'', JBool True)]"
  define c where "c = snd (RegexCategories ! 1)"
  have m: "(''cpf'', c) \<in> set RegexCategories" and g: "generator c = generateCPFRegex"
    by (simp_all add: c_def RegexCategories_def)
  have t: "test_generated (generateCPFRegex (JObj ?kvs)) ''12345678909'' = Some True"
    by code_simp
  from anchored_matches_whole_input [of ?kvs] m
  have "case (''cpf'', c) of (k, c) \<Rightarrow> \<exists>p. generator c (JObj ?kvs) = Inr p
     \<and> hd (pattern p) = CHR ''^'' \<and> last (pattern p) = CHR ''$''
     \<and> (\<exists>r. parse_re (pattern p) = Some r
          \<and> (\<forall>s i j. j \<in> run (CHR ''i'' \<in> set (flags p)) s r {i} \<longrightarrow> i = 0 \<and> j = length s))
     \<and> (k \<in> {''cpf'', ''cep'', ''uuid''} \<longrightarrow>
          (\<forall>s u v. re_test (pattern p) (flags p) s = Some True
             \<and> re_test (pattern p) (flags p) (u @ s @ v) = Some True \<longrightarrow> u = [] \<and> v = []))"
    by (rule bspec)
  then obtain p where p: "generateCPFRegex (JObj ?kvs) = Inr p"
    and a: "hd (pattern p) = CHR ''^''" "last (pattern p) = CHR ''$''"
      "\<exists>r. parse_re (pattern p) = Some r"
    unfolding prod.case g by blast
  from t p have "re_test (pattern p) (flags p) ''12345678909'' = Some True"
    by (simp add: test_generated_def)
  with p a show ?thesis by (intro exI [of _ p]) simp
qed

text \<open>
  C3 as stated fails for email and for ipv4: \<^verbatim>\<open>user@example.com\<close> matches, and so
  does \<^verbatim>\<open>user@example.comm\<close>, which extends it; \<^verbatim>\<open>1.1.1.1\<close> matches, and so does
  \<^verbatim>\<open>1.1.1.11\<close>.
\<close>

theorem extension_still_matches:
  "test_generated (generateEmailRegex (JObj [])) ''user@example.com'' = Some True
   \<and> test_generated (generateEmailRegex (JObj [])) (''user@example.com'' @ ''m'') = Some True
   \<and> test_generated (generateIPv4Regex (JObj [])) ''1.1.1.1'' = Some True
   \<and> test_generated (generateIPv4Regex (JObj [])) (''1.1.1.1'' @ ''1'') = Some True"
  by code_simp

text \<open>
  C4. The pattern of the IPv4 generator for the empty record matches
  \<^verbatim>\<open>255.255.255.255\<close> and not \<^verbatim>\<open>256.0.0.1\<close>; with \<^verbatim>\<open>allowCIDR\<close> true it matches
  \<^verbatim>\<open>10.0.0.0/24\<close>, not \<^verbatim>\<open>10.0.0.0/33\<close>, and still \<^verbatim>\<open>10.0.0.0\<close> without a suffix.
  For every options record, the strings that the pattern matches are exactly the four
  decimal numerals of numbers from 0 to 255 with dots between them, followed, when
  \<^verbatim>\<open>allowCIDR\<close> is truthy and only then, by nothing or by a slash and the decimal
  numeral of a number from 0 to 32.
\<close>

theorem ipv4_octets_and_prefix:
  "test_generated (generateIPv4Regex (JObj [])) ''255.255.255.255'' = Some True
   \<and> test_generated (generateIPv4Regex (JObj [])) ''256.0.0.1'' = Some False
   \<and> test_generated (generateIPv4Regex (JObj [(''allowCIDR'', JBool True)])) ''10.0.0.0/24''
       = Some True
   \<and> test_generated (generateIPv4Regex (JObj [(''allowCIDR'', JBool True)])) ''10.0.0.0/33''
       = Some False
   \<and> test_generated (generateIPv4Regex (JObj [(''allowCIDR'', JBool True)])) ''10.0.0.0''
       = Some True
   \<and> (\<forall>kvs s. test_generated (generateIPv4Regex (JObj kvs)) s
         = Some (\<exists>a<256. \<exists>b<256. \<exists>c<256. \<exists>d<256.
                   s = dotted a b c d
                   \<or> (ToBoolean (field kvs ''allowCIDR'')
                        \<and> (\<exists>p<33. s = dotted a b c d @ ''/'' @ dec p))))"
proof -
  have "test_generated (generateIPv4Regex (JObj [])) ''255.255.255.255'' = Some True"
    by code_simp
  moreover have "test_generated (generateIPv4Regex (JObj [])) ''256.0.0.1'' = Some False"
    by code_simp
  moreover have
    "test_generated (generateIPv4Regex (JObj [(''allowCIDR'', JBool True)])) ''10.0.0.0/24''
       = Some True"
    by code_simp
  moreover have
    "test_generated (generateIPv4Regex (JObj [(''allowCIDR'', JBool True)])) ''10.0.0.0/33''
       = Some False"
    by code_simp
  moreover have
    "test_generated (generateIPv4Regex (JObj [(''allowCIDR'', JBool True)])) ''10.0.0.0''
       = Some True"
    by code_simp
  moreover have "test_generated (generateIPv4Regex (JObj kvs)) s
         = Some (\<exists>a<256. \<exists>b<256. \<exists>c<256. \<exists>d<256.
                   s = dotted a b c d
                   \<or> (ToBoolean (field kvs ''allowCIDR'')
                        \<and> (\<exists>p<33. s = dotted a b c d @ ''/'' @ dec p)))" for kvs s
    by (simp only: ipv4_test ipv4_matched)
  ultimately show ?thesis by blast
qed

theorem ipv4_octets_and_prefix_witness:
  "test_generated (generateIPv4Regex (JObj [])) ''192.168.0.1'' = Some True
   \<and> test_generated (generateIPv4Regex (JObj [(''allowCIDR'', JBool True)])) ''192.168.0.1/32''
       = Some True
   \<and> \<not> (\<exists>a<256. \<exists>b<256. \<exists>c<256. \<exists>d<256. ''256.0.0.1'' = dotted a b c d)"
proof -
  have d: "dotted 192 168 0 1 = ''192.168.0.1''" and p: "dec 32 = ''32''"
    by code_simp+
  have t: "ToBoolean (field [(''allowCIDR'', JBool True)] ''allowCIDR'')"
    and n: "\<not> ToBoolean (field [] ''allowCIDR'')"
    by (simp_all add: field_def)
  from ipv4_octets_and_prefix
  have all: "test_generated (generateIPv4Regex (JObj kvs)) s
         = Some (\<exists>a<256. \<exists>b<256. \<exists>c<256. \<exists>d<256.
                   s = dotted a b c d
                   \<or> (ToBoolean (field kvs ''allowCIDR'')
                        \<and> (\<exists>p<33. s = dotted a b c d @ ''/'' @ dec p)))" for kvs s
    by blast
  have "\<exists>a<256. \<exists>b<256. \<exists>c<256. \<exists>d<256. ''192.168.0.1'' = dotted a b c d
      \<or> (ToBoolean (field [] ''allowCIDR'')
            \<and> (\<exists>p<33. ''192.168.0.1'' = dotted a b c d @ ''/'' @ dec p))"
    using d by (intro exI [of _ 192] exI [of _ 168] exI [of _ 0] exI [of _ 1] conjI disjI1) simp_all
  then have 1: "test_generated (generateIPv4Regex (JObj [])) ''192.168.0.1'' = Some True"
    by (simp only: all)
  have "\<exists>a<256. \<exists>b<256. \<exists>c<256. \<exists>d<256. ''192.168.0.1/32'' = dotted a b c d
      \<or> (ToBoolean (field [(''allowCIDR'', JBool True)] ''allowCIDR'')
            \<and> (\<exists>p<33. ''192.168.0.1/32'' = dotted a b c d @ ''/'' @ dec p))"
    using d p t
    by (intro exI [of _ 192] exI [of _ 168] exI [of _ 0] exI [of _ 1] conjI disjI2
        exI [of _ 32]) simp_all
  then have 2: "test_generated (generateIPv4Regex (JObj [(''allowCIDR'', JBool True)]))
      ''192.168.0.1/32'' = Some True"
    by (simp only: all)
  from ipv4_octets_and_prefix
  have "test_generated (generateIPv4Regex (JObj [])) ''256.0.0.1'' = Some False"
    by blast
  with all [of "[]" "''256.0.0.1''"] n
  have 3: "\<not> (\<exists>a<256. \<exists>b<256. \<exists>c<256. \<exists>d<256. ''256.0.0.1'' = dotted a b c d)"
    by simp
  from 1 2 3 show ?thesis by blast
qed

text \<open>
  C5. With \<^verbatim>\<open>allowOptionalSymbols\<close> false the pattern of the CPF generator matches
  \<^verbatim>\<open>123.456.789-09\<close> and not \<^verbatim>\<open>12345678909\<close>; with it true the pattern matches both,
  and not \<^verbatim>\<open>123-456.789.09\<close>.
\<close>

theorem cpf_examples:
  "test_generated (generateCPFRegex (JObj [(''allowOptionalSymbols'', JBool False)]))
       ''123.456.789-09'' = Some True
   \<and> test_generated (generateCPFRegex (JObj [(''allowOptionalSymbols'', JBool False)]))
       ''12345678909'' = Some False
   \<and> test_generated (generateCPFRegex (JObj [(''allowOptionalSymbols'', JBool True)]))
       ''123.456.789-09'' = Some True
   \<and> test_generated (generateCPFRegex (JObj [(''allowOptionalSymbols'', JBool True)]))
       ''12345678909'' = Some True
   \<and> test_generated (generateCPFRegex (JObj [(''allowOptionalSymbols'', JBool True)]))
       ''123-456.789.09'' = Some False"
  by code_simp

text \<open>
  C6. Whatever it is called with, the UUID generator returns a pattern that matches
  \<^verbatim>\<open>550e8400-e29b-41d4-a716-446655440000\<close> and not the same string with the version
  digit 3. Every string it matches has 36 characters, the digit 4 at the place of the
  version, and at the place of the variant one of the hexadecimal digits 8, 9, a, b,
  the letters in either case since the flags fold case.
\<close>

theorem uuid_nibbles:
  "test_generated (generateUUIDRegex arg) ''550e8400-e29b-41d4-a716-446655440000'' = Some True
   \<and> test_generated (generateUUIDRegex arg) ''550e8400-e29b-31d4-a716-446655440000'' = Some False
   \<and> (\<forall>s. test_generated (generateUUIDRegex arg) s = Some True \<longrightarrow>
         length s = 36 \<and> s ! 14 = CHR ''4'' \<and> s ! 19 \<in> set ''89abAB'')"
proof (intro conjI allI impI)
  have e: "generateUUIDRegex arg = generateUUIDRegex JUndefined"
    by (simp add: generateUUIDRegex_def)
  show "test_generated (generateUUIDRegex arg) ''550e8400-e29b-41d4-a716-446655440000'' = Some True"
    unfolding e by code_simp
  show "test_generated (generateUUIDRegex arg) ''550e8400-e29b-31d4-a716-446655440000'' = Some False"
    unfolding e by code_simp
next
  fix s
  assume "test_generated (generateUUIDRegex arg) s = Some True"
  then obtain w where w: "w \<in> set (shapes (seq_of uuid_core))"
    and m: "list_all2 (class_has True) w s"
    using anchored_shapes [OF uuid_bounded, of True s]
    by (auto simp: test_generated_compiled compiled_uuid folds_case_uuid anchored_def)
  from w uuid_shapes have l: "length w = 36" and v: "w ! 14 = [Single CHR ''4'']"
    and x: "w ! 19 = [Single CHR ''8'', Single CHR ''9'', Single CHR ''a'', Single CHR ''b'']"
    by (simp_all add: list_all_iff)
  from m l show "length s = 36"
    by (simp add: list_all2_lengthD [symmetric])
  from list_all2_nthD [OF m, of 14] l v show "s ! 14 = CHR ''4''"
    by (simp add: only_four)
  from list_all2_nthD [OF m, of 19] l x show "s ! 19 \<in> set ''89abAB''"
    by (simp only: variant_digits)
qed

theorem uuid_nibbles_witness:
  "length ''550e8400-e29b-41d4-a716-446655440000'' = 36
   \<and> ''550e8400-e29b-41d4-a716-446655440000'' ! 14 = CHR ''4''
   \<and> ''550e8400-e29b-41d4-a716-446655440000'' ! 19 \<in> set ''89abAB''"
  using uuid_nibbles [of JUndefined] by blast

text \<open>
  C7. With \<^verbatim>\<open>allowOptionalSymbols\<close> true the pattern of the CEP generator matches
  \<^verbatim>\<open>01310-100\<close> and \<^verbatim>\<open>01310100\<close>, and not \<^verbatim>\<open>01310 100\<close>.
\<close>

theorem cep_examples:
  "test_generated (generateCEPRegex (JObj [(''allowOptionalSymbols'', JBool True)]))
       ''01310-100'' = Some True
   \<and> test_generated (generateCEPRegex (JObj [(''allowOptionalSymbols'', JBool True)]))
       ''01310100'' = Some True
   \<and> test_generated (generateCEPRegex (JObj [(''allowOptionalSymbols'', JBool True)]))
       ''01310 100'' = Some False"
  by code_simp

text \<open>
  C8. Each generator of the registry, called with no argument, returns a result (it
  does not throw), and that result is the one it returns for the empty record.
\<close>

theorem no_argument_is_empty_record:
  "\<forall>(k, c) \<in> set RegexCategories.
     generator c JUndefined = generator c (JObj []) \<and> (\<exists>g. generator c JUndefined = Inr g)"
  by (simp add: RegexCategories_def generator_defs default_param_def)

theorem no_argument_is_empty_record_witness:
  "generateCPFRegex JUndefined = generateCPFRegex (JObj [])
   \<and> (\<exists>g. generateCPFRegex JUndefined = Inr g)"
proof -
  define c where "c = snd (RegexCategories ! 1)"
  have m: "(''cpf'', c) \<in> set RegexCategories" and g: "generator c = generateCPFRegex"
    by (simp_all add: c_def RegexCategories_def)
  from no_argument_is_empty_record m
  have "case (''cpf'', c) of (k, c) \<Rightarrow>
          generator c JUndefined = generator c (JObj []) \<and> (\<exists>g. generator c JUndefined = Inr g)"
    by (rule bspec)
  from this [unfolded prod.case g] show ?thesis .
qed

text \<open>
  C9. For each generator of the registry and each options record, setting a key that
  is not the id of a declared criterion of the category changes nothing in the result,
  and the call returns a result.
\<close>

theorem unknown_key_ignored:
  "\<forall>(k, c) \<in> set RegexCategories.
     key \<notin> cid ` set (criteria c) \<and> map_of kvs' = (map_of kvs)(key \<mapsto> v) \<longrightarrow>
       generator c (JObj kvs') = generator c (JObj kvs)
       \<and> (\<exists>g. generator c (JObj kvs') = Inr g)"
  by (simp add: RegexCategories_def generator_defs default_param_def get_prop_obj
        field_update Let_def del: get_prop.simps)

theorem unknown_key_ignored_witness:
  "''futureOption'' \<notin> cid ` set (criteria (snd (RegexCategories ! 4)))
   \<and> generateIPv4Regex (JObj [(''futureOption'', JNum 7), (''allowCIDR'', JBool True)])
       = generateIPv4Regex (JObj [(''allowCIDR'', JBool True)])"
  using unknown_key_ignored [of "''futureOption''"
      "[(''futureOption'', JNum 7), (''allowCIDR'', JBool True)]"
      "[(''allowCIDR'', JBool True)]" "JNum 7"]
  by (simp add: RegexCategories_def)

text \<open>
  C10. For each category of the registry and each criterion it declares (email, cpf,
  cep and ipv4 declare one, uuid none), every string matched by the pattern generated
  with the criterion false is matched by the pattern generated with the criterion true.
\<close>

theorem criterion_only_relaxes:
  "\<forall>(k, c) \<in> set RegexCategories. \<forall>cr \<in> set (criteria c).
     field off (cid cr) = JBool False \<and> field on (cid cr) = JBool True
       \<and> test_generated (generator c (JObj off)) s = Some True
     \<longrightarrow> test_generated (generator c (JObj on)) s = Some True"
proof -
  have email: "test_generated (generateEmailRegex (JObj on)) s = Some True"
    if "field off ''allowSubdomains'' = JBool False" "field on ''allowSubdomains'' = JBool True"
      "test_generated (generateEmailRegex (JObj off)) s = Some True"
    using relaxes_generated [OF compiled_email [of off] compiled_email [of on] _ _ that(3)]
      relaxes_email that(1,2)
    by (simp add: folds_case_email)
  have cpf: "test_generated (generateCPFRegex (JObj on)) s = Some True"
    if "field off ''allowOptionalSymbols'' = JBool False"
      "field on ''allowOptionalSymbols'' = JBool True"
      "test_generated (generateCPFRegex (JObj off)) s = Some True"
    using relaxes_generated [OF compiled_cpf [of off] compiled_cpf [of on] _ _ that(3)]
      relaxes_cpf that(1,2)
    by (simp add: folds_case_cpf)
  have cep: "test_generated (generateCEPRegex (JObj on)) s = Some True"
    if "field off ''allowOptionalSymbols'' = JBool False"
      "field on ''allowOptionalSymbols'' = JBool True"
      "test_generated (generateCEPRegex (JObj off)) s = Some True"
    using relaxes_generated [OF compiled_cep [of off] compiled_cep [of on] _ _ that(3)]
      relaxes_cep that(1,2)
    by (simp add: folds_case_cep)
  have ipv4: "test_generated (generateIPv4Regex (JObj on)) s = Some True"
    if "field off ''allowCIDR'' = JBool False" "field on ''allowCIDR'' = JBool True"
      "test_generated (generateIPv4Regex (JObj off)) s = Some True"
    using relaxes_generated [OF compiled_ipv4 [of off] compiled_ipv4 [of on] _ _ that(3)]
      relaxes_ipv4 that(1,2)
    by (simp add: folds_case_ipv4)
  show ?thesis
    using email cpf cep ipv4 by (simp add: RegexCategories_def)
qed

theorem criterion_only_relaxes_witness:
  "test_generated (generateCPFRegex (JObj [(''allowOptionalSymbols'', JBool False)]))
       ''123.456.789-09'' = Some True
   \<and> test_generated (generateCPFRegex (JObj [(''allowOptionalSymbols'', JBool True)]))
       ''123.456.789-09'' = Some True"
proof -
  have m: "test_generated (generateCPFRegex (JObj [(''allowOptionalSymbols'', JBool False)]))
       ''123.456.789-09'' = Some True"
    by code_simp
  from criterion_only_relaxes [of "[(''allowOptionalSymbols'', JBool False)]"
      "[(''allowOptionalSymbols'', JBool True)]" "''123.456.789-09''"] m
  have "test_generated (generateCPFRegex (JObj [(''allowOptionalSymbols'', JBool True)]))
       ''123.456.789-09'' = Some True"
    by (simp add: RegexCategories_def field_def)
  with m show ?thesis ..
qed

end
